theory Spec2Isabelle
  imports Main "HOL-Library.Char_ord" "HOL-Library.List_Lexorder" "HOL-Library.Product_Lexorder"
begin

section \<open>Machine integers\<close>

text \<open>Go's \<^verbatim>\<open>uint32\<close> and \<^verbatim>\<open>uint64\<close> are naturals reduced modulo the width; Go's
  \<^verbatim>\<open>int\<close> and \<^verbatim>\<open>int64\<close> are integers wrapped into the signed 64-bit range. Every
  operation of the source that can overflow is written with the reduction in place.\<close>

definition u32 :: "nat \<Rightarrow> nat" where
  "u32 n = n mod 2 ^ 32"

definition u64 :: "nat \<Rightarrow> nat" where
  "u64 n = n mod 2 ^ 64"

definition sub32 :: "nat \<Rightarrow> nat \<Rightarrow> nat" where
  "sub32 a b = (a + 2 ^ 32 - b mod 2 ^ 32) mod 2 ^ 32"

definition sub64 :: "nat \<Rightarrow> nat \<Rightarrow> nat" where
  "sub64 a b = (a + 2 ^ 64 - b mod 2 ^ 64) mod 2 ^ 64"

definition wrap64 :: "int \<Rightarrow> int" where
  "wrap64 x = (x + 2 ^ 63) mod 2 ^ 64 - 2 ^ 63"


section \<open>Values of net/netip\<close>

text \<open>An address is an IPv4 address (a 32-bit number) or an IPv6 address (a 128-bit
  number); a prefix is an address with a prefix length. \<^verbatim>\<open>netip.ParsePrefix\<close> keeps the
  host bits of the address it reads, so a prefix need not be in masked form.
  \<open>validPrefix\<close> is the invariant of every value \<^verbatim>\<open>ParsePrefix\<close> and
  \<^verbatim>\<open>PrefixFrom(...).Masked()\<close> produce in this program.\<close>

datatype addr = Addr4 nat | Addr6 nat

datatype prefix = PrefixFrom (Addr: addr) (Bits: nat)

fun Is4 :: "addr \<Rightarrow> bool" where
  "Is4 (Addr4 a) = True"
| "Is4 (Addr6 a) = False"

fun Is6 :: "addr \<Rightarrow> bool" where
  "Is6 (Addr4 a) = False"
| "Is6 (Addr6 a) = True"

fun BitLen :: "addr \<Rightarrow> nat" where
  "BitLen (Addr4 a) = 32"
| "BitLen (Addr6 a) = 128"

fun addrVal :: "addr \<Rightarrow> nat" where
  "addrVal (Addr4 a) = a"
| "addrVal (Addr6 a) = a"

fun withVal :: "addr \<Rightarrow> nat \<Rightarrow> addr" where
  "withVal (Addr4 a) v = Addr4 v"
| "withVal (Addr6 a) v = Addr6 v"

definition validPrefix :: "prefix \<Rightarrow> bool" where
  "validPrefix p = (addrVal (Addr p) < 2 ^ BitLen (Addr p) \<and> Bits p \<le> BitLen (Addr p))"

text \<open>\<^verbatim>\<open>Prefix.Masked\<close> clears the host bits; \<^verbatim>\<open>Prefix.Contains\<close> compares the
  leading \<open>Bits\<close> bits and is false across families.\<close>

definition hostBits :: "prefix \<Rightarrow> nat" where
  "hostBits p = BitLen (Addr p) - Bits p"

definition Masked :: "prefix \<Rightarrow> prefix" where
  "Masked p =
     PrefixFrom (withVal (Addr p) (addrVal (Addr p) div 2 ^ hostBits p * 2 ^ hostBits p)) (Bits p)"

definition Contains :: "prefix \<Rightarrow> addr \<Rightarrow> bool" where
  "Contains p ip =
     (Is4 (Addr p) = Is4 ip \<and>
      addrVal (Addr p) div 2 ^ hostBits p = addrVal ip div 2 ^ hostBits p)"

text \<open>The functions of the Go library that read or print text are parameters of the
  model: \<^verbatim>\<open>netip.ParsePrefix\<close> (\<open>None\<close> is the error), \<^verbatim>\<open>Prefix.String\<close>,
  \<^verbatim>\<open>strings.TrimSpace\<close> and \<^verbatim>\<open>strings.ToLower\<close>. So is the one floating-point
  computation of the analyzer, \<open>Float64Pct num denom\<close>: the value \<^verbatim>\<open>int(f * 100)\<close> where
  \<^verbatim>\<open>f\<close> is the \<^verbatim>\<open>float64\<close> that \<^verbatim>\<open>big.Rat.Float64\<close> gives for \<open>num/denom\<close>.\<close>

record golib =
  ParsePrefix :: "string \<Rightarrow> prefix option"
  PrefixString :: "prefix \<Rightarrow> string"
  TrimSpace :: "string \<Rightarrow> string"
  ToLower :: "string \<Rightarrow> string"
  Float64Pct :: "int \<Rightarrow> int \<Rightarrow> int"

section \<open>main.go: the data model\<close>

text \<open>\<^verbatim>\<open>sql.NullInt64\<close> and \<^verbatim>\<open>sql.NullString\<close> are options. Of \<^verbatim>\<open>Segment\<close> the
  fields the planning core reads are kept; the DHCP, gateway and notes fields are
  read by the views only.\<close>

record Segment =
  ID :: int
  SiteID :: int
  Site :: string
  VRF :: string
  VLAN :: int
  Name :: string
  Hosts :: "int option"
  Prefix :: "int option"
  CIDR :: "string option"
  PrefixV6 :: "int option"
  CIDRV6 :: "string option"
  Locked :: bool
  Tags :: "string option"
  PoolTier :: "string option"

record Pool =
  PoolID :: int
  PoolSiteID :: int
  PoolSite :: string
  PoolCIDR :: string
  Family :: string
  Tier :: "string option"
  Priority :: int

record SiteRec =
  SiteRecID :: int
  SiteName :: string
  ReservedRanges :: "string option"

record ProjectRules =
  VLANScope :: string
  RequireInPool :: bool
  AllowReservedOverlap :: bool
  OversizeThreshold :: int
  PoolStrategy :: string
  PoolTierFallback :: bool

record Conflict =
  Kind :: string
  Detail :: string
  Level :: string

datatype statusLevel = statusOK | statusWarning | statusConflict

fun Label :: "statusLevel \<Rightarrow> string" where
  "Label statusWarning = ''Warning''"
| "Label statusConflict = ''Conflict''"
| "Label statusOK = ''OK''"

definition PoolStrategySpillover :: string where "PoolStrategySpillover = ''spillover''"
definition PoolStrategyContig :: string where "PoolStrategyContig = ''contiguous''"
definition PoolStrategyTiered :: string where "PoolStrategyTiered = ''tiered''"
definition VlanScopeSiteVRF :: string where "VlanScopeSiteVRF = ''site_vrf''"
definition VlanScopeSite :: string where "VlanScopeSite = ''site''"
definition VlanScopeGlobal :: string where "VlanScopeGlobal = ''global''"

section \<open>ipmath.go\<close>

text \<open>\<^verbatim>\<open>big.Int\<close> is \<open>int\<close>. \<^verbatim>\<open>QuoRem\<close> truncates towards zero.\<close>

definition addrBitLen :: "addr \<Rightarrow> int" where
  "addrBitLen a = (if Is4 a then 32 else 128)"

definition addrToBig :: "addr \<Rightarrow> int" where
  "addrToBig a = int (addrVal a)"

definition bigToAddr :: "int \<Rightarrow> int \<Rightarrow> addr option" where
  "bigToAddr i bits =
     (if bits = 32 then (if i < 0 \<or> i \<ge> 2 ^ 32 then None else Some (Addr4 (nat i)))
      else (if i < 0 \<or> i \<ge> 2 ^ 128 then None else Some (Addr6 (nat i))))"

definition prefixSize :: "prefix \<Rightarrow> int" where
  "prefixSize p =
     (let sizeBits = addrBitLen (Addr p) - int (Bits p)
      in if sizeBits \<le> 0 then 1 else 2 ^ nat sizeBits)"

definition prefixLastAddr :: "prefix \<Rightarrow> addr option" where
  "prefixLastAddr p =
     (let masked = Masked p;
          start = addrToBig (Addr masked);
          size = prefixSize masked;
          last = start + size - 1
      in bigToAddr last (addrBitLen (Addr masked)))"

definition prefixWithin :: "prefix \<Rightarrow> prefix \<Rightarrow> bool" where
  "prefixWithin pool p =
     (if \<not> Contains pool (Addr p) then False
      else (case prefixLastAddr p of None \<Rightarrow> False | Some l \<Rightarrow> Contains pool l))"

definition quoT :: "int \<Rightarrow> int \<Rightarrow> int" where
  "quoT n d = sgn n * sgn d * (\<bar>n\<bar> div \<bar>d\<bar>)"

definition alignUp :: "int \<Rightarrow> int \<Rightarrow> int" where
  "alignUp n step =
     (if step = 0 then n
      else (let q = quoT n step; r = n - q * step
            in (if r \<noteq> 0 then q + 1 else q) * step))"

section \<open>vlsm.go: prefix length for a host count\<close>

text \<open>The loop of \<^verbatim>\<open>hostsToPrefixIPv4\<close>: \<^verbatim>\<open>for p := 32; p >= 1; p-- { size := 1 << (32 - p);
  if size >= need { return p } }; return 1\<close>.\<close>

function hostsLoop :: "int \<Rightarrow> int \<Rightarrow> int" where
  "hostsLoop need p =
     (if p \<ge> 1 then (if (2::int) ^ nat (32 - p) \<ge> need then p else hostsLoop need (p - 1))
      else 1)"
  by pat_completeness auto
termination
  by (relation "measure (\<lambda>(need, p). nat p)") auto

declare hostsLoop.simps [simp del]

definition hostsToPrefixIPv4 :: "int \<Rightarrow> int" where
  "hostsToPrefixIPv4 hosts = hostsLoop (wrap64 (hosts + 3)) 32"


section \<open>vlsm.go: helpers\<close>

definition prefixesOverlap :: "prefix \<Rightarrow> prefix \<Rightarrow> bool" where
  "prefixesOverlap a b = (Contains a (Addr b) \<or> Contains b (Addr a))"

definition overlapsAny :: "prefix \<Rightarrow> prefix list \<Rightarrow> bool" where
  "overlapsAny p used = list_ex (\<lambda>u. prefixesOverlap u p) used"

definition desiredPrefix :: "Segment \<Rightarrow> int" where
  "desiredPrefix s =
     (case Prefix s of Some v \<Rightarrow> v
      | None \<Rightarrow> (case Hosts s of Some h \<Rightarrow> hostsToPrefixIPv4 h | None \<Rightarrow> 0))"

text \<open>\<^verbatim>\<open>ipv4ToU32\<close> reads the four bytes \<^verbatim>\<open>As4\<close> returns. \<^verbatim>\<open>As4\<close> panics on an IPv6
  address that is not IPv4-mapped; every call of the source is guarded by \<^verbatim>\<open>Is4\<close>, and
  the model returns the low 32 bits there.\<close>

definition ipv4ToU32 :: "addr \<Rightarrow> nat" where
  "ipv4ToU32 a = u32 (addrVal a)"

definition u32ToIPv4 :: "nat \<Rightarrow> addr" where
  "u32ToIPv4 v = Addr4 (u32 v)"

text \<open>\<^verbatim>\<open>itoa64\<close>: the digits are produced from the least significant one; negating the
  least \<^verbatim>\<open>int64\<close> wraps, and the digit loop then does not run.\<close>

function itoaDigits :: "nat \<Rightarrow> string \<Rightarrow> string" where
  "itoaDigits i buf = (if i > 0 then itoaDigits (i div 10) ((''0123456789'' ! (i mod 10)) # buf) else buf)"
  by pat_completeness auto
termination
  by (relation "measure (\<lambda>(i, buf). i)") auto

declare itoaDigits.simps [simp del]

definition itoa64 :: "int \<Rightarrow> string" where
  "itoa64 i =
     (if i = 0 then ''0''
      else (let neg = (i < 0);
                j = (if neg then wrap64 (- i) else i);
                ds = itoaDigits (nat j) []
            in if neg then CHR ''-'' # ds else ds))"

definition itoa :: "int \<Rightarrow> string" where
  "itoa i = itoa64 i"

text \<open>The loop of \<^verbatim>\<open>allocateInPoolIPv4\<close>:
  \<^verbatim>\<open>for cur := start; cur+step <= end; cur += step\<close> over \<^verbatim>\<open>uint32\<close>. The sum
  \<^verbatim>\<open>cur+step\<close> wraps, so the loop need not end: \<open>None\<close> is the run that never
  returns, \<open>Some None\<close> the return \<^verbatim>\<open>(netip.Prefix{}, false)\<close> and \<open>Some (Some p)\<close> the
  return \<^verbatim>\<open>(p, true)\<close>.\<close>

partial_function (option) allocLoopIPv4 ::
  "prefix \<Rightarrow> nat \<Rightarrow> prefix list \<Rightarrow> nat \<Rightarrow> nat \<Rightarrow> nat \<Rightarrow> prefix option option" where
  "allocLoopIPv4 pool want used step end cur =
     (if u32 (cur + step) \<le> end then
        (if \<not> Contains pool (Addr (Masked (PrefixFrom (u32ToIPv4 cur) want)))
         then allocLoopIPv4 pool want used step end (u32 (cur + step))
         else if overlapsAny (Masked (PrefixFrom (u32ToIPv4 cur) want)) used
         then allocLoopIPv4 pool want used step end (u32 (cur + step))
         else Some (Some (Masked (PrefixFrom (u32ToIPv4 cur) want))))
      else Some None)"

declare allocLoopIPv4.simps [code]

definition allocateInPoolIPv4 :: "prefix \<Rightarrow> int \<Rightarrow> prefix list \<Rightarrow> prefix option option" where
  "allocateInPoolIPv4 pool want used =
     (if want < 1 \<or> want > 32 then Some None
      else (let step = u32 (2 ^ nat (32 - want));
                start = ipv4ToU32 (Addr (Masked pool));
                end = u32 (start + u32 (2 ^ (32 - Bits pool)))
            in allocLoopIPv4 pool (nat want) used step end start))"

section \<open>allocator.go: used ranges over big integers\<close>

record bigRange =
  bigStart :: int
  bigEnd :: int

text \<open>\<^verbatim>\<open>mergeBigRanges\<close> keeps the last range of \<^verbatim>\<open>out\<close> in hand (\<open>lst\<close>) and either
  extends it or emits it and goes on with the next range.\<close>

fun mergeBigFrom :: "bigRange \<Rightarrow> bigRange list \<Rightarrow> bigRange list" where
  "mergeBigFrom lst [] = [lst]"
| "mergeBigFrom lst (r # rs) =
     (if bigStart r \<le> bigEnd lst + 1
      then mergeBigFrom (if bigEnd r > bigEnd lst then lst\<lparr>bigEnd := bigEnd r\<rparr> else lst) rs
      else lst # mergeBigFrom r rs)"

fun mergeBigRanges :: "bigRange list \<Rightarrow> bigRange list" where
  "mergeBigRanges [] = []"
| "mergeBigRanges (r # rs) = mergeBigFrom r rs"

text \<open>The body of the loop of \<^verbatim>\<open>buildUsedRangesBig\<close>: the range of one used prefix,
  clipped to the pool, or nothing when it lies outside.\<close>

definition clipBig :: "int \<Rightarrow> int \<Rightarrow> prefix \<Rightarrow> bigRange option" where
  "clipBig poolStart poolEnd p0 =
     (let p = Masked p0;
          start = addrToBig (Addr p);
          size = prefixSize p;
          end = start + size - 1
      in if end < poolStart \<or> start > poolEnd then None
         else Some \<lparr>bigStart = (if start < poolStart then poolStart else start),
                    bigEnd = (if end > poolEnd then poolEnd else end)\<rparr>)"

text \<open>\<^verbatim>\<open>sort.Slice\<close> orders by \<open>start\<close> and is free to order equal starts either way;
  the model takes the stable order.\<close>

definition buildUsedRangesBig :: "prefix \<Rightarrow> prefix list \<Rightarrow> bigRange list" where
  "buildUsedRangesBig pool used =
     (if used = [] then []
      else (let poolStart = addrToBig (Addr pool);
                poolSize = prefixSize pool;
                poolEnd = poolStart + poolSize - 1;
                out = List.map_filter (clipBig poolStart poolEnd) used
            in mergeBigRanges (sort_key bigStart out)))"

lemma quoT_mult_le:
  assumes "0 < d"
  shows "\<bar>quoT n d * d\<bar> \<le> \<bar>n\<bar> \<and> (0 \<le> n \<longrightarrow> 0 \<le> quoT n d * d) \<and> (n \<le> 0 \<longrightarrow> quoT n d * d \<le> 0)"
proof -
  have "\<bar>n\<bar> div d * d + \<bar>n\<bar> mod d = \<bar>n\<bar>" by simp
  moreover have "0 \<le> \<bar>n\<bar> mod d" using assms by simp
  ultimately have a: "\<bar>n\<bar> div d * d \<le> \<bar>n\<bar>" by linarith
  have b: "0 \<le> \<bar>n\<bar> div d * d" using assms by (simp add: pos_imp_zdiv_nonneg_iff)
  consider "n < 0" | "n = 0" | "0 < n" by linarith
  then show ?thesis
  proof cases
    case 1
    then have e: "quoT n d * d = - (\<bar>n\<bar> div d * d)" using assms by (simp add: quoT_def)
    from a b 1 show ?thesis unfolding e by linarith
  next
    case 2
    then show ?thesis by (simp add: quoT_def)
  next
    case 3
    then have e: "quoT n d * d = \<bar>n\<bar> div d * d" using assms by (simp add: quoT_def)
    from a b 3 show ?thesis unfolding e by linarith
  qed
qed

lemma alignUp_ge:
  assumes "0 < step"
  shows "n \<le> alignUp n step"
proof -
  let ?q = "quoT n step"
  from quoT_mult_le[OF assms, of n]
  have m: "\<bar>?q * step\<bar> \<le> \<bar>n\<bar>" "0 \<le> n \<longrightarrow> 0 \<le> ?q * step" "n \<le> 0 \<longrightarrow> ?q * step \<le> 0"
    by auto
  show ?thesis
  proof (cases "n - ?q * step = 0")
    case True
    then show ?thesis using assms by (simp add: alignUp_def)
  next
    case False
    have au: "alignUp n step = (?q + 1) * step"
      using False assms by (simp add: alignUp_def Let_def)
    show ?thesis
    proof (cases "0 \<le> n")
      case True
      with m have le: "?q * step \<le> n" "0 \<le> ?q * step" by auto
      have qd: "?q = n div step" using True assms by (simp add: quoT_def sgn_if)
      have "n < (n div step + 1) * step"
        using assms by (metis add.commute distrib_right mult.commute mult_1 pos_mod_bound
            mult_div_mod_eq add_less_cancel_left)
      with au qd show ?thesis by simp
    next
      case F: False
      with m have "n \<le> ?q * step" by auto
      also have "\<dots> \<le> (?q + 1) * step" using assms by (simp add: distrib_right)
      finally show ?thesis using au by simp
    qed
  qed
qed

text \<open>The loop of \<^verbatim>\<open>allocateInPoolIPv6\<close>. \<open>ranges\<close> is \<^verbatim>\<open>usedRanges[idx:]\<close>; the inner
  loop that advances \<^verbatim>\<open>idx\<close> is \<open>dropWhile\<close>. \<^verbatim>\<open>step\<close> is \<^verbatim>\<open>1 << (128 - want)\<close>.\<close>

function allocLoopIPv6 :: "nat \<Rightarrow> int \<Rightarrow> bigRange list \<Rightarrow> int \<Rightarrow> prefix option" where
  "allocLoopIPv6 want poolEnd ranges cur =
     (if cur + 2 ^ (128 - want) - 1 > poolEnd then None
      else (case dropWhile (\<lambda>r. bigEnd r < cur) ranges of
              [] \<Rightarrow> (case bigToAddr cur 128 of None \<Rightarrow> None
                     | Some a \<Rightarrow> Some (Masked (PrefixFrom a want)))
            | r # rs \<Rightarrow>
                (if cur + 2 ^ (128 - want) - 1 < bigStart r
                 then (case bigToAddr cur 128 of None \<Rightarrow> None
                       | Some a \<Rightarrow> Some (Masked (PrefixFrom a want)))
                 else allocLoopIPv6 want poolEnd (r # rs)
                        (alignUp (bigEnd r + 1) (2 ^ (128 - want))))))"
  by pat_completeness auto
termination
proof (relation "measure (\<lambda>(want, poolEnd, ranges, cur). nat (poolEnd + 1 - cur))", goal_cases)
  case 1
  show ?case by simp
next
  case (2 want poolEnd ranges cur r rs)
  have "r \<in> set (dropWhile (\<lambda>r. bigEnd r < cur) ranges)" using 2(2) by simp
  have "\<not> bigEnd r < cur"
    using 2(2) by (metis (mono_tags, lifting) hd_dropWhile list.sel(1) list.distinct(1))
  then have "cur < bigEnd r + 1" by simp
  also have "\<dots> \<le> alignUp (bigEnd r + 1) (2 ^ (128 - want))"
    by (rule alignUp_ge) simp
  finally have lt: "cur < alignUp (bigEnd r + 1) (2 ^ (128 - want))" .
  have "(0::int) < 2 ^ (128 - want)" by simp
  with 2(1) have "cur \<le> poolEnd" by linarith
  with lt show ?case by simp
qed

declare allocLoopIPv6.simps [simp del]

text \<open>\<^verbatim>\<open>allocateInPoolIPv6\<close>. For \<^verbatim>\<open>want > 128\<close> the shift count \<^verbatim>\<open>uint(128-want)\<close> wraps
  to a number near \<open>2^64\<close> and \<^verbatim>\<open>big.Int.Lsh\<close> cannot allocate its result: the call
  panics and returns nothing (\<open>None\<close>).\<close>

definition allocateInPoolIPv6 :: "prefix \<Rightarrow> int \<Rightarrow> prefix list \<Rightarrow> prefix option option" where
  "allocateInPoolIPv6 pool0 want used =
     (if \<not> Is6 (Addr pool0) then Some None
      else (let pool = Masked pool0
            in if want < int (Bits pool) then Some None
               else if want > 128 then None
               else (let poolStart = addrToBig (Addr pool);
                         poolSize = prefixSize pool;
                         poolEnd = poolStart + poolSize - 1;
                         usedRanges = buildUsedRangesBig pool used;
                         cur = alignUp poolStart (2 ^ (128 - nat want))
                     in Some (allocLoopIPv6 (nat want) poolEnd usedRanges cur))))"

definition allocateInPool :: "prefix \<Rightarrow> int \<Rightarrow> prefix list \<Rightarrow> prefix option option" where
  "allocateInPool pool want used =
     (if Is4 (Addr pool) then allocateInPoolIPv4 pool want used
      else allocateInPoolIPv6 pool want used)"


section \<open>allocator.go: the pool catalog\<close>

record poolItem =
  iPool :: Pool
  iPrefix :: prefix
  iTier :: string

definition normalizePoolFamily :: "golib \<Rightarrow> string \<Rightarrow> string" where
  "normalizePoolFamily L raw = (if ToLower L (TrimSpace L raw) = ''ipv6'' then ''ipv6'' else ''ipv4'')"

definition poolTierValue :: "golib \<Rightarrow> Pool \<Rightarrow> string" where
  "poolTierValue L p = (case Tier p of Some t \<Rightarrow> ToLower L (TrimSpace L t) | None \<Rightarrow> '''')"

text \<open>\<^verbatim>\<open>strings.Split(s, ",")\<close>: one more part than there are commas.\<close>

fun splitComma :: "string \<Rightarrow> string list" where
  "splitComma [] = [[]]"
| "splitComma (c # cs) =
     (if c = CHR '','' then [] # splitComma cs
      else (case splitComma cs of [] \<Rightarrow> [[c]] | w # ws \<Rightarrow> (c # w) # ws))"

definition HasPrefix :: "string \<Rightarrow> string \<Rightarrow> bool" where
  "HasPrefix s pre = (take (length pre) s = pre)"

definition TrimPrefix :: "string \<Rightarrow> string \<Rightarrow> string" where
  "TrimPrefix s pre = (if HasPrefix s pre then drop (length pre) s else s)"

fun tierFromTags :: "golib \<Rightarrow> string list \<Rightarrow> string" where
  "tierFromTags L [] = ''''"
| "tierFromTags L (part0 # parts) =
     (let part = TrimSpace L part0
      in if part = '''' then tierFromTags L parts
         else if HasPrefix (ToLower L part) ''tier:''
         then TrimSpace L (TrimPrefix (ToLower L part) ''tier:'')
         else if HasPrefix (ToLower L part) ''tier=''
         then TrimSpace L (TrimPrefix (ToLower L part) ''tier='')
         else tierFromTags L parts)"

definition segmentTierValue :: "golib \<Rightarrow> Segment \<Rightarrow> string" where
  "segmentTierValue L s =
     (case (case PoolTier s of
              Some t \<Rightarrow> (if TrimSpace L t \<noteq> '''' then Some (ToLower L (TrimSpace L t)) else None)
            | None \<Rightarrow> None) of
        Some v \<Rightarrow> v
      | None \<Rightarrow> (case Tags s of None \<Rightarrow> '''' | Some tags \<Rightarrow> tierFromTags L (splitComma tags)))"

text \<open>One pool of \<^verbatim>\<open>poolItemsForFamily\<close>: kept when its family is the one asked for, its
  CIDR parses and the parsed address is of that family.\<close>

definition poolItemOf :: "golib \<Rightarrow> string \<Rightarrow> Pool \<Rightarrow> poolItem option" where
  "poolItemOf L family p =
     (if normalizePoolFamily L (Family p) \<noteq> family then None
      else (case ParsePrefix L (TrimSpace L (PoolCIDR p)) of
              None \<Rightarrow> None
            | Some pre \<Rightarrow>
                if family = ''ipv4'' \<and> \<not> Is4 (Addr pre) then None
                else if family = ''ipv6'' \<and> \<not> Is6 (Addr pre) then None
                else Some \<lparr>iPool = p, iPrefix = pre, iTier = poolTierValue L p\<rparr>))"

text \<open>\<^verbatim>\<open>sort.SliceStable\<close> by priority, then tier, then the printed prefix; Go compares
  strings bytewise, as the lexicographic order on \<open>string\<close> does.\<close>

definition poolItemsForFamily :: "golib \<Rightarrow> Pool list \<Rightarrow> string \<Rightarrow> poolItem list" where
  "poolItemsForFamily L pools family =
     sort_key (\<lambda>it. (Priority (iPool it), iTier it, PrefixString L (iPrefix it)))
       (List.map_filter (poolItemOf L family) pools)"

definition poolTierMatches :: "poolItem \<Rightarrow> string \<Rightarrow> bool \<Rightarrow> bool" where
  "poolTierMatches pool tier fallback =
     (if tier \<noteq> '''' then (if iTier pool = tier then True else fallback)
      else if iTier pool = '''' then True
      else fallback)"

definition filterPoolsByTier :: "poolItem list \<Rightarrow> string \<Rightarrow> bool \<Rightarrow> poolItem list" where
  "filterPoolsByTier items tier fallback =
     (if tier = '''' then
        (let empty = filter (\<lambda>p. iTier p = '''') items
         in if empty \<noteq> [] then empty else if fallback then items else [])
      else (let out = filter (\<lambda>p. iTier p = tier) items
            in if out = [] \<and> fallback then items else out))"

definition desiredPrefixByFamily :: "Segment \<Rightarrow> string \<Rightarrow> int" where
  "desiredPrefixByFamily s family =
     (if family = ''ipv6'' then (case PrefixV6 s of Some v \<Rightarrow> v | None \<Rightarrow> 0)
      else desiredPrefix s)"

definition segmentCIDRByFamily :: "Segment \<Rightarrow> string \<Rightarrow> string option" where
  "segmentCIDRByFamily s family = (if family = ''ipv6'' then CIDRV6 s else CIDR s)"

section \<open>allocator.go: the strategies\<close>

text \<open>A Go map from segment ids to prefixes is a partial function. A strategy returns
  \<open>None\<close> when a call of \<open>allocateInPool\<close> does not return, and otherwise the allocation
  map and the conflict list.\<close>

type_synonym allocMap = "int \<Rightarrow> prefix option"

definition allocateFail :: "Segment \<Rightarrow> string \<Rightarrow> Conflict" where
  "allocateFail s family =
     \<lparr>Kind = ''ALLOCATE_FAIL'',
      Detail = ''segment '' @ Name s @ '' could not be allocated ('' @ family @ '')'',
      Level = Label statusWarning\<rparr>"

text \<open>The inner loop of \<^verbatim>\<open>allocateSpillover\<close>: the first pool of the list that fits.\<close>

fun firstFit :: "poolItem list \<Rightarrow> int \<Rightarrow> prefix list \<Rightarrow> prefix option option" where
  "firstFit [] want used = Some None"
| "firstFit (pool # rest) want used =
     (case allocateInPool (iPrefix pool) want used of
        None \<Rightarrow> None
      | Some (Some p) \<Rightarrow> Some (Some p)
      | Some None \<Rightarrow> firstFit rest want used)"

definition spillPoolList :: "golib \<Rightarrow> poolItem list \<Rightarrow> ProjectRules \<Rightarrow> Segment \<Rightarrow> poolItem list" where
  "spillPoolList L items rules s =
     (if PoolStrategy rules = PoolStrategyTiered
      then filterPoolsByTier items (segmentTierValue L s) (PoolTierFallback rules)
      else items)"

text \<open>The loop of \<^verbatim>\<open>allocateSpillover\<close> over the segments, with its three variables
  \<^verbatim>\<open>used\<close>, \<^verbatim>\<open>alloc\<close> and \<^verbatim>\<open>conflicts\<close>.\<close>

fun spillLoop ::
  "golib \<Rightarrow> poolItem list \<Rightarrow> ProjectRules \<Rightarrow> string \<Rightarrow> bool \<Rightarrow> Segment list \<Rightarrow>
   prefix list \<Rightarrow> allocMap \<Rightarrow> Conflict list \<Rightarrow> (allocMap \<times> Conflict list) option" where
  "spillLoop L items rules family strict [] used alloc conflicts = Some (alloc, conflicts)"
| "spillLoop L items rules family strict (s # segs) used alloc conflicts =
     (if desiredPrefixByFamily s family = 0
      then spillLoop L items rules family strict segs used alloc conflicts
      else (case firstFit (spillPoolList L items rules s) (desiredPrefixByFamily s family) used of
              None \<Rightarrow> None
            | Some None \<Rightarrow>
                (if strict then Some (alloc, conflicts @ [allocateFail s family])
                 else spillLoop L items rules family strict segs used alloc
                        (conflicts @ [allocateFail s family]))
            | Some (Some p) \<Rightarrow>
                spillLoop L items rules family strict segs (used @ [p])
                  (alloc(ID s \<mapsto> p)) conflicts))"

definition allocateSpillover ::
  "golib \<Rightarrow> poolItem list \<Rightarrow> Segment list \<Rightarrow> prefix list \<Rightarrow> ProjectRules \<Rightarrow> string \<Rightarrow> bool \<Rightarrow>
   (allocMap \<times> Conflict list) option" where
  "allocateSpillover L items segments used rules family strict =
     spillLoop L items rules family strict segments used Map.empty []"

text \<open>\<^verbatim>\<open>allocateContiguous\<close>: the inner loop over the pending segments for one pool
  returns the new \<^verbatim>\<open>used\<close>, \<^verbatim>\<open>alloc\<close> and \<^verbatim>\<open>nextPending\<close>; the outer loop runs over the
  pools and stops when nothing is pending.\<close>

fun contigInner ::
  "golib \<Rightarrow> ProjectRules \<Rightarrow> string \<Rightarrow> poolItem \<Rightarrow> Segment list \<Rightarrow> prefix list \<Rightarrow> allocMap \<Rightarrow>
   Segment list \<Rightarrow> (prefix list \<times> allocMap \<times> Segment list) option" where
  "contigInner L rules family pool [] used alloc nextPending = Some (used, alloc, nextPending)"
| "contigInner L rules family pool (s # ss) used alloc nextPending =
     (if desiredPrefixByFamily s family = 0
      then contigInner L rules family pool ss used alloc nextPending
      else if PoolStrategy rules = PoolStrategyTiered \<and>
              \<not> poolTierMatches pool (segmentTierValue L s) (PoolTierFallback rules)
      then contigInner L rules family pool ss used alloc (nextPending @ [s])
      else (case allocateInPool (iPrefix pool) (desiredPrefixByFamily s family) used of
              None \<Rightarrow> None
            | Some (Some p) \<Rightarrow>
                contigInner L rules family pool ss (used @ [p]) (alloc(ID s \<mapsto> p)) nextPending
            | Some None \<Rightarrow>
                contigInner L rules family pool ss used alloc (nextPending @ [s])))"

fun contigOuter ::
  "golib \<Rightarrow> ProjectRules \<Rightarrow> string \<Rightarrow> poolItem list \<Rightarrow> Segment list \<Rightarrow> prefix list \<Rightarrow> allocMap \<Rightarrow>
   (allocMap \<times> Segment list) option" where
  "contigOuter L rules family [] pending used alloc = Some (alloc, pending)"
| "contigOuter L rules family (pool # rest) pending used alloc =
     (if pending = [] then Some (alloc, pending)
      else (case contigInner L rules family pool pending used alloc [] of
              None \<Rightarrow> None
            | Some (used', alloc', nextPending) \<Rightarrow>
                contigOuter L rules family rest nextPending used' alloc'))"

definition contigConflicts :: "Segment list \<Rightarrow> string \<Rightarrow> bool \<Rightarrow> Conflict list" where
  "contigConflicts pending family strict =
     (if strict then map (\<lambda>s. allocateFail s family) (take 1 pending)
      else map (\<lambda>s. allocateFail s family) pending)"

definition allocateContiguous ::
  "golib \<Rightarrow> poolItem list \<Rightarrow> Segment list \<Rightarrow> prefix list \<Rightarrow> ProjectRules \<Rightarrow> string \<Rightarrow> bool \<Rightarrow>
   (allocMap \<times> Conflict list) option" where
  "allocateContiguous L items segments used rules family strict =
     (case contigOuter L rules family items segments used Map.empty of
        None \<Rightarrow> None
      | Some (alloc, pending) \<Rightarrow> Some (alloc, contigConflicts pending family strict))"

text \<open>The \<^verbatim>\<open>switch rules.PoolStrategy\<close> of \<^verbatim>\<open>allocateFamily\<close> and \<^verbatim>\<open>planAllocateFamily\<close>.\<close>

definition runStrategy ::
  "golib \<Rightarrow> poolItem list \<Rightarrow> Segment list \<Rightarrow> prefix list \<Rightarrow> ProjectRules \<Rightarrow> string \<Rightarrow> bool \<Rightarrow>
   (allocMap \<times> Conflict list) option" where
  "runStrategy L items candidates used rules family strict =
     (if PoolStrategy rules = PoolStrategyContig
      then allocateContiguous L items candidates used rules family strict
      else allocateSpillover L items candidates used rules family strict)"


section \<open>allocator.go: planning and persistent allocation of one family\<close>

definition segmentsNeedFamily :: "Segment list \<Rightarrow> string \<Rightarrow> bool" where
  "segmentsNeedFamily segs family =
     list_ex (\<lambda>s. if family = ''ipv6'' then PrefixV6 s \<noteq> None \<or> CIDRV6 s \<noteq> None
                   else Prefix s \<noteq> None \<or> Hosts s \<noteq> None \<or> CIDR s \<noteq> None) segs"

definition lockedNoCIDR :: "Segment \<Rightarrow> string \<Rightarrow> Conflict" where
  "lockedNoCIDR s family =
     \<lparr>Kind = ''LOCKED_NO_CIDR'',
      Detail = ''segment '' @ Name s @ '' is locked without CIDR ('' @ family @ '')'',
      Level = Label statusWarning\<rparr>"

definition sizeMissing :: "Segment \<Rightarrow> string \<Rightarrow> Conflict" where
  "sizeMissing s family =
     \<lparr>Kind = ''SIZE_MISSING'',
      Detail = ''segment '' @ Name s @ '' has no size request ('' @ family @ '')'',
      Level = Label statusWarning\<rparr>"

definition poolMissing :: "string \<Rightarrow> Conflict" where
  "poolMissing family =
     \<lparr>Kind = ''POOL_MISSING'', Detail = ''no pools for family '' @ family,
      Level = Label statusWarning\<rparr>"

text \<open>The first loop of \<^verbatim>\<open>planAllocateFamily\<close>, over the locked segments.\<close>

fun planLocked ::
  "golib \<Rightarrow> string \<Rightarrow> Segment list \<Rightarrow> prefix list \<Rightarrow> allocMap \<Rightarrow> Conflict list \<Rightarrow>
   prefix list \<times> allocMap \<times> Conflict list" where
  "planLocked L family [] used plan conflicts = (used, plan, conflicts)"
| "planLocked L family (s # ss) used plan conflicts =
     (if \<not> Locked s then planLocked L family ss used plan conflicts
      else (case segmentCIDRByFamily s family of
              None \<Rightarrow> planLocked L family ss used plan (conflicts @ [lockedNoCIDR s family])
            | Some cidr \<Rightarrow>
                (case ParsePrefix L cidr of
                   Some p \<Rightarrow> planLocked L family ss (used @ [p]) (plan(ID s \<mapsto> p)) conflicts
                 | None \<Rightarrow> planLocked L family ss used plan conflicts)))"

text \<open>The second loop, over the segments that are not locked.\<close>

fun planCandidates ::
  "string \<Rightarrow> Segment list \<Rightarrow> Segment list \<Rightarrow> Conflict list \<Rightarrow> Segment list \<times> Conflict list" where
  "planCandidates family [] candidates conflicts = (candidates, conflicts)"
| "planCandidates family (s # ss) candidates conflicts =
     (if Locked s then planCandidates family ss candidates conflicts
      else if desiredPrefixByFamily s family = 0
      then planCandidates family ss candidates (conflicts @ [sizeMissing s family])
      else planCandidates family ss (candidates @ [s]) conflicts)"

definition planAllocateFamily ::
  "golib \<Rightarrow> Segment list \<Rightarrow> Pool list \<Rightarrow> prefix list \<Rightarrow> ProjectRules \<Rightarrow> string \<Rightarrow>
   (allocMap \<times> Conflict list) option" where
  "planAllocateFamily L segs pools reserved rules family =
     (let items = poolItemsForFamily L pools family
      in if items = [] then
           (if \<not> segmentsNeedFamily segs family then Some (Map.empty, [])
            else Some (Map.empty, [poolMissing family]))
         else (case planLocked L family segs [] Map.empty [] of
                 (used0, plan, conflicts0) \<Rightarrow>
                   (case planCandidates family segs [] conflicts0 of
                      (candidates0, conflicts) \<Rightarrow>
                        (let used = used0 @ reserved;
                             candidates = sort_key (\<lambda>s. desiredPrefixByFamily s family) candidates0
                         in (case runStrategy L items candidates used rules family False of
                               None \<Rightarrow> None
                             | Some (alloc, cf) \<Rightarrow> Some (plan ++ alloc, conflicts @ cf))))))"

section \<open>What-if planning: applyPlan\<close>

definition applyPlan :: "golib \<Rightarrow> Segment list \<Rightarrow> allocMap \<Rightarrow> allocMap \<Rightarrow> Segment list" where
  "applyPlan L segs planV4 planV6 =
     map (\<lambda>s. s\<lparr>CIDR := (case planV4 (ID s) of Some p \<Rightarrow> Some (PrefixString L p) | None \<Rightarrow> None),
                CIDRV6 := (case planV6 (ID s) of Some p \<Rightarrow> Some (PrefixString L p) | None \<Rightarrow> None)\<rparr>)
       segs"

section \<open>allocator.go: persistent allocation\<close>

text \<open>The store is reached through \<^verbatim>\<open>sqlExecer.Exec\<close> only. The four statements the
  allocator executes are a datatype; \<open>exec\<close> is the store's answer to a statement in a
  state: the error (or none) and the state after it.\<close>

datatype stmt =
  ClearUnlockedCIDR int
| ClearUnlockedCIDRV6 int
| SetCIDR int string
| SetCIDRV6 int string

definition clearCIDRsByFamily ::
  "('st \<Rightarrow> stmt \<Rightarrow> string option \<times> 'st) \<Rightarrow> 'st \<Rightarrow> int \<Rightarrow> string \<Rightarrow> string option \<times> 'st" where
  "clearCIDRsByFamily exec st siteID family =
     (if family = ''ipv6'' then exec st (ClearUnlockedCIDRV6 siteID) else exec st (ClearUnlockedCIDR siteID))"

definition updateSegmentCIDRByFamily ::
  "('st \<Rightarrow> stmt \<Rightarrow> string option \<times> 'st) \<Rightarrow> 'st \<Rightarrow> int \<Rightarrow> string \<Rightarrow> string \<Rightarrow> string option \<times> 'st" where
  "updateSegmentCIDRByFamily exec st segmentID family cidr =
     (if family = ''ipv6'' then exec st (SetCIDRV6 segmentID cidr)
      else exec st (SetCIDR segmentID cidr))"

text \<open>\<^verbatim>\<open>for id, p := range allocations\<close>: the updates, in the order the runtime walks
  the map (\<open>ids\<close>), stopping at the first error.\<close>

fun updateLoop ::
  "golib \<Rightarrow> ('st \<Rightarrow> stmt \<Rightarrow> string option \<times> 'st) \<Rightarrow> string \<Rightarrow> allocMap \<Rightarrow> int list \<Rightarrow> 'st \<Rightarrow>
   string option \<times> 'st" where
  "updateLoop L exec family allocations [] st = (None, st)"
| "updateLoop L exec family allocations (i # ids) st =
     (case allocations i of
        None \<Rightarrow> updateLoop L exec family allocations ids st
      | Some p \<Rightarrow>
          (case updateSegmentCIDRByFamily exec st i family (PrefixString L p) of
             (Some err, st') \<Rightarrow> (Some err, st')
           | (None, st') \<Rightarrow> updateLoop L exec family allocations ids st'))"

text \<open>The used prefixes of the locked segments, as the first loop of
  \<^verbatim>\<open>allocateFamily\<close> collects them.\<close>

definition lockedUsed :: "golib \<Rightarrow> Segment list \<Rightarrow> string \<Rightarrow> prefix list" where
  "lockedUsed L segs family =
     List.map_filter
       (\<lambda>s. if \<not> Locked s then None
            else (case segmentCIDRByFamily s family of
                    None \<Rightarrow> None
                  | Some cidr \<Rightarrow> ParsePrefix L cidr))
       segs"

definition allocCandidates :: "Segment list \<Rightarrow> string \<Rightarrow> Segment list" where
  "allocCandidates segs family =
     filter (\<lambda>s. \<not> Locked s \<and> desiredPrefixByFamily s family \<noteq> 0) segs"

text \<open>\<^verbatim>\<open>allocateFamily\<close>. Go walks a map in an order of the runtime's choosing: \<open>order\<close>
  is that choice, applied to the keys of \<^verbatim>\<open>allocations\<close> (the ids of the candidates
  that were placed). The result is the returned error and the state of the store.\<close>

definition allocateFamily ::
  "golib \<Rightarrow> ('st \<Rightarrow> stmt \<Rightarrow> string option \<times> 'st) \<Rightarrow> (int list \<Rightarrow> int list) \<Rightarrow> 'st \<Rightarrow> int \<Rightarrow>
   Segment list \<Rightarrow> Pool list \<Rightarrow> prefix list \<Rightarrow> ProjectRules \<Rightarrow> string \<Rightarrow>
   (string option \<times> 'st) option" where
  "allocateFamily L exec order st siteID segs pools reserved rules family =
     (let items = poolItemsForFamily L pools family
      in if items = [] then Some (None, st)
         else (let used = lockedUsed L segs family @ reserved;
                   candidates0 = allocCandidates segs family
               in if candidates0 = [] then Some (None, st)
                  else (let candidates = sort_key (\<lambda>s. desiredPrefixByFamily s family) candidates0
                        in (case runStrategy L items candidates used rules family True of
                              None \<Rightarrow> None
                            | Some (allocations, conflicts) \<Rightarrow>
                                (if conflicts \<noteq> [] then Some (Some (Detail (hd conflicts)), st)
                                 else (case clearCIDRsByFamily exec st siteID family of
                                         (Some err, st') \<Rightarrow> Some (Some err, st')
                                       | (None, st') \<Rightarrow>
                                           Some (updateLoop L exec family allocations
                                                   (order (filter (\<lambda>i. allocations i \<noteq> None)
                                                             (remdups (map ID candidates))))
                                                   st')))))))"


section \<open>analysis.go: used and free ranges of an IPv4 pool\<close>

record ipv4Range =
  rStart :: nat
  rEnd :: nat

text \<open>\<^verbatim>\<open>uint32((1<<(32-bits))-1)\<close>: the constant 1 has type \<^verbatim>\<open>uint32\<close>, so for \<^verbatim>\<open>bits = 0\<close>
  the shift gives 0 and the subtraction wraps to \<open>2^32 - 1\<close>.\<close>

definition sizeMinus1 :: "prefix \<Rightarrow> nat" where
  "sizeMinus1 p = sub32 (u32 (2 ^ (32 - Bits p))) 1"

definition prefixRangeWithin :: "prefix \<Rightarrow> prefix \<Rightarrow> ipv4Range option" where
  "prefixRangeWithin pool p =
     (let poolStart = ipv4ToU32 (Addr (Masked pool));
          poolEnd = u32 (poolStart + sizeMinus1 pool);
          pStart = ipv4ToU32 (Addr (Masked p));
          pEnd = u32 (pStart + sizeMinus1 p)
      in if pEnd < poolStart \<or> pStart > poolEnd then None
         else Some \<lparr>rStart = (if pStart < poolStart then poolStart else pStart),
                    rEnd = (if pEnd > poolEnd then poolEnd else pEnd)\<rparr>)"

text \<open>\<^verbatim>\<open>mergeRanges\<close>, with the last range of \<^verbatim>\<open>out\<close> in hand; \<^verbatim>\<open>last.end+1\<close> is a
  \<^verbatim>\<open>uint32\<close> sum.\<close>

fun mergeFrom :: "ipv4Range \<Rightarrow> ipv4Range list \<Rightarrow> ipv4Range list" where
  "mergeFrom lst [] = [lst]"
| "mergeFrom lst (r # rs) =
     (if rStart r \<le> u32 (rEnd lst + 1)
      then mergeFrom (if rEnd r > rEnd lst then lst\<lparr>rEnd := rEnd r\<rparr> else lst) rs
      else lst # mergeFrom r rs)"

fun mergeRanges :: "ipv4Range list \<Rightarrow> ipv4Range list" where
  "mergeRanges [] = []"
| "mergeRanges (r # rs) = mergeFrom r rs"

text \<open>The two loops of \<^verbatim>\<open>buildUsedRanges\<close>: the segments whose CIDR parses to an IPv4
  prefix, then the reserved IPv4 prefixes, each clipped to the pool. The comparison of
  \<^verbatim>\<open>sort.Slice\<close> is the lexicographic order on (start, end).\<close>

definition segmentRange :: "golib \<Rightarrow> prefix \<Rightarrow> Segment \<Rightarrow> ipv4Range option" where
  "segmentRange L pool s =
     (case CIDR s of
        None \<Rightarrow> None
      | Some c \<Rightarrow>
          (case ParsePrefix L c of
             None \<Rightarrow> None
           | Some p \<Rightarrow> if \<not> Is4 (Addr p) then None else prefixRangeWithin pool p))"

definition reservedRange :: "prefix \<Rightarrow> prefix \<Rightarrow> ipv4Range option" where
  "reservedRange pool r = (if \<not> Is4 (Addr r) then None else prefixRangeWithin pool r)"

definition buildUsedRanges :: "golib \<Rightarrow> prefix \<Rightarrow> Segment list \<Rightarrow> prefix list \<Rightarrow> ipv4Range list" where
  "buildUsedRanges L pool segs reserved =
     mergeRanges
       (sort_key (\<lambda>r. (rStart r, rEnd r))
          (List.map_filter (segmentRange L pool) segs @ List.map_filter (reservedRange pool) reserved))"

text \<open>The loop of \<^verbatim>\<open>freeRanges\<close> returns \<^verbatim>\<open>cur\<close> and \<^verbatim>\<open>gaps\<close>; \<^verbatim>\<open>r.end+1\<close> and
  \<^verbatim>\<open>r.start - 1\<close> are \<^verbatim>\<open>uint32\<close> operations.\<close>

fun freeLoop :: "nat \<Rightarrow> nat \<Rightarrow> ipv4Range list \<Rightarrow> ipv4Range list \<Rightarrow> nat \<times> ipv4Range list" where
  "freeLoop poolEnd cur [] gaps = (cur, gaps)"
| "freeLoop poolEnd cur (r # rs) gaps =
     (let gaps' = (if rStart r > cur then gaps @ [\<lparr>rStart = cur, rEnd = sub32 (rStart r) 1\<rparr>]
                   else gaps);
          cur' = (if u32 (rEnd r + 1) > cur then u32 (rEnd r + 1) else cur)
      in if cur' > poolEnd then (cur', gaps') else freeLoop poolEnd cur' rs gaps')"

definition freeRanges :: "prefix \<Rightarrow> ipv4Range list \<Rightarrow> ipv4Range list" where
  "freeRanges pool used =
     (let poolStart = ipv4ToU32 (Addr (Masked pool));
          poolEnd = u32 (poolStart + sizeMinus1 pool)
      in if used = [] then [\<lparr>rStart = poolStart, rEnd = poolEnd\<rparr>]
         else (case freeLoop poolEnd poolStart used [] of
                 (cur, gaps) \<Rightarrow>
                   if cur \<le> poolEnd then gaps @ [\<lparr>rStart = cur, rEnd = poolEnd\<rparr>] else gaps))"

section \<open>Capacity: sizes of ranges\<close>

text \<open>\<^verbatim>\<open>sumIPv4Ranges\<close> adds \<^verbatim>\<open>uint64(r.end - r.start + 1)\<close>, the size computed in
  \<^verbatim>\<open>uint32\<close>; the free total of \<open>analyzeEfficiency\<close> adds \<^verbatim>\<open>uint64(g.end-g.start) + 1\<close>.\<close>

definition sumIPv4Ranges :: "ipv4Range list \<Rightarrow> int" where
  "sumIPv4Ranges ranges = (\<Sum>r\<leftarrow>ranges. int (u32 (sub32 (rEnd r) (rStart r) + 1)))"

definition gapSize :: "ipv4Range \<Rightarrow> nat" where
  "gapSize g = u64 (sub32 (rEnd g) (rStart g) + 1)"

definition sumBigRanges :: "bigRange list \<Rightarrow> int" where
  "sumBigRanges ranges = (\<Sum>r\<leftarrow>ranges. bigEnd r - bigStart r + 1)"

definition bigRangeSize :: "bigRange \<Rightarrow> int" where
  "bigRangeSize r = bigEnd r - bigStart r + 1"

section \<open>analysis.go: free ranges over big integers\<close>

fun freeLoopBig :: "int \<Rightarrow> int \<Rightarrow> bigRange list \<Rightarrow> bigRange list \<Rightarrow> int \<times> bigRange list" where
  "freeLoopBig poolEnd cur [] gaps = (cur, gaps)"
| "freeLoopBig poolEnd cur (r # rs) gaps =
     (let gaps' = (if bigStart r > cur then gaps @ [\<lparr>bigStart = cur, bigEnd = bigStart r - 1\<rparr>]
                   else gaps);
          cur' = (if bigEnd r + 1 > cur then bigEnd r + 1 else cur)
      in if cur' > poolEnd then (cur', gaps') else freeLoopBig poolEnd cur' rs gaps')"

definition freeRangesBig :: "prefix \<Rightarrow> bigRange list \<Rightarrow> bigRange list" where
  "freeRangesBig pool used =
     (let masked = Masked pool;
          poolStart = addrToBig (Addr masked);
          poolSize = prefixSize masked;
          poolEnd = poolStart + poolSize - 1
      in if used = [] then [\<lparr>bigStart = poolStart, bigEnd = poolEnd\<rparr>]
         else (case freeLoopBig poolEnd poolStart used [] of
                 (cur, gaps) \<Rightarrow>
                   if cur \<le> poolEnd then gaps @ [\<lparr>bigStart = cur, bigEnd = poolEnd\<rparr>] else gaps))"


section \<open>analysis.go: indexes\<close>

text \<open>A Go map that is walked with \<^verbatim>\<open>range\<close> is an association list in order of first
  insertion, together with the order in which the runtime walks it: Go leaves that
  order unspecified and varies it from run to run. The four \<^verbatim>\<open>range\<close> loops over maps
  in the analyzer each take their order from a \<open>rangeOrders\<close> value; an order is a
  rearrangement of the entries.\<close>

type_synonym prefixIndex = "(int \<times> prefix list) list"
type_synonym groupIndex = "((string \<times> string) \<times> int list) list"

record rangeOrders =
  groupOrder4 :: "groupIndex \<Rightarrow> groupIndex"
  groupOrder6 :: "groupIndex \<Rightarrow> groupIndex"
  siteOrder4 :: "prefixIndex \<Rightarrow> prefixIndex"
  siteOrder6 :: "prefixIndex \<Rightarrow> prefixIndex"

definition indexGet :: "('k \<times> 'v list) list \<Rightarrow> 'k \<Rightarrow> 'v list" where
  "indexGet m k = (case map_of m k of None \<Rightarrow> [] | Some vs \<Rightarrow> vs)"

definition indexAppend :: "('k \<times> 'v list) list \<Rightarrow> 'k \<Rightarrow> 'v \<Rightarrow> ('k \<times> 'v list) list" where
  "indexAppend m k v =
     (if map_of m k = None then m @ [(k, [v])]
      else map (\<lambda>e. if fst e = k then (fst e, snd e @ [v]) else e) m)"

fun buildPoolIndexLoop :: "golib \<Rightarrow> Pool list \<Rightarrow> prefixIndex \<Rightarrow> prefixIndex \<Rightarrow> prefixIndex \<times> prefixIndex" where
  "buildPoolIndexLoop L [] outV4 outV6 = (outV4, outV6)"
| "buildPoolIndexLoop L (p # ps) outV4 outV6 =
     (case ParsePrefix L (PoolCIDR p) of
        None \<Rightarrow> buildPoolIndexLoop L ps outV4 outV6
      | Some pre \<Rightarrow>
          if normalizePoolFamily L (Family p) = ''ipv6'' \<and> Is6 (Addr pre)
          then buildPoolIndexLoop L ps outV4 (indexAppend outV6 (PoolSiteID p) pre)
          else if Is4 (Addr pre)
          then buildPoolIndexLoop L ps (indexAppend outV4 (PoolSiteID p) pre) outV6
          else buildPoolIndexLoop L ps outV4 outV6)"

definition buildPoolIndex :: "golib \<Rightarrow> Pool list \<Rightarrow> prefixIndex \<times> prefixIndex" where
  "buildPoolIndex L pools = buildPoolIndexLoop L pools [] []"

definition reservedParse :: "SiteRec \<Rightarrow> string \<Rightarrow> Conflict" where
  "reservedParse s part =
     \<lparr>Kind = ''RESERVED_PARSE'', Detail = ''site='' @ SiteName s @ '' bad reserved range: '' @ part,
      Level = Label statusWarning\<rparr>"

text \<open>The inner loop of \<^verbatim>\<open>buildReservedIndex\<close>, over the comma-separated parts of one
  site's reserved ranges.\<close>

fun reservedParts ::
  "golib \<Rightarrow> SiteRec \<Rightarrow> string list \<Rightarrow> prefixIndex \<Rightarrow> prefixIndex \<Rightarrow> Conflict list \<Rightarrow>
   prefixIndex \<times> prefixIndex \<times> Conflict list" where
  "reservedParts L s [] outV4 outV6 conflicts = (outV4, outV6, conflicts)"
| "reservedParts L s (part0 # parts) outV4 outV6 conflicts =
     (let part = TrimSpace L part0
      in if part = '''' then reservedParts L s parts outV4 outV6 conflicts
         else (case ParsePrefix L part of
                 None \<Rightarrow> reservedParts L s parts outV4 outV6 (conflicts @ [reservedParse s part])
               | Some pre \<Rightarrow>
                   if Is4 (Addr pre)
                   then reservedParts L s parts (indexAppend outV4 (SiteRecID s) pre) outV6 conflicts
                   else if Is6 (Addr pre)
                   then reservedParts L s parts outV4 (indexAppend outV6 (SiteRecID s) pre) conflicts
                   else reservedParts L s parts outV4 outV6 conflicts))"

fun buildReservedLoop ::
  "golib \<Rightarrow> SiteRec list \<Rightarrow> prefixIndex \<Rightarrow> prefixIndex \<Rightarrow> Conflict list \<Rightarrow>
   prefixIndex \<times> prefixIndex \<times> Conflict list" where
  "buildReservedLoop L [] outV4 outV6 conflicts = (outV4, outV6, conflicts)"
| "buildReservedLoop L (s # ss) outV4 outV6 conflicts =
     (case ReservedRanges s of
        None \<Rightarrow> buildReservedLoop L ss outV4 outV6 conflicts
      | Some raw0 \<Rightarrow>
          (let raw = TrimSpace L raw0
           in if raw = '''' then buildReservedLoop L ss outV4 outV6 conflicts
              else (case reservedParts L s (splitComma raw) outV4 outV6 conflicts of
                      (o4, o6, cs) \<Rightarrow> buildReservedLoop L ss o4 o6 cs)))"

definition buildReservedIndex :: "golib \<Rightarrow> SiteRec list \<Rightarrow> prefixIndex \<times> prefixIndex \<times> Conflict list" where
  "buildReservedIndex L sites = buildReservedLoop L sites [] [] []"

section \<open>analysis.go: analyzeSegments\<close>

record SegmentStatus =
  stLevel :: statusLevel
  stDetails :: "string list"

fun levelNum :: "statusLevel \<Rightarrow> nat" where
  "levelNum statusOK = 0"
| "levelNum statusWarning = 1"
| "levelNum statusConflict = 2"

type_synonym statusMap = "int \<Rightarrow> SegmentStatus option"

definition addStatus :: "statusMap \<Rightarrow> int \<Rightarrow> statusLevel \<Rightarrow> string \<Rightarrow> statusMap" where
  "addStatus statuses i level detail =
     (let st = (case statuses i of None \<Rightarrow> \<lparr>stLevel = level, stDetails = []\<rparr> | Some st0 \<Rightarrow> st0);
          st1 = (if levelNum level > levelNum (stLevel st) then st\<lparr>stLevel := level\<rparr> else st);
          st2 = (if detail \<noteq> '''' then st1\<lparr>stDetails := stDetails st1 @ [detail]\<rparr> else st1)
      in statuses(i \<mapsto> st2))"

definition prefixInAnyPool :: "prefix \<Rightarrow> prefix list \<Rightarrow> bool" where
  "prefixInAnyPool p pools = list_ex (\<lambda>pool. prefixWithin pool p) pools"

fun joinWith :: "string \<Rightarrow> string list \<Rightarrow> string" where
  "joinWith sep [] = ''''"
| "joinWith sep [x] = x"
| "joinWith sep (x # y # ys) = x @ sep @ joinWith sep (y # ys)"

definition joinPrefixes :: "golib \<Rightarrow> prefix list \<Rightarrow> string" where
  "joinPrefixes L pools = joinWith '', '' (map (PrefixString L) pools)"

text \<open>The IPv4 block and the IPv6 block of the per-segment loop are the same code up to
  the texts they emit; \<open>cidrTexts\<close> holds the texts of one block.\<close>

record cidrTexts =
  tInvalid :: string
  tParseKind :: string
  tCidrWord :: string
  tNoPool :: string
  tOutOfPool :: string
  tOutKind :: string
  tOutside :: string
  tReserved :: string
  tReservedKind :: string

definition textsV4 :: cidrTexts where
  "textsV4 = \<lparr>tInvalid = ''invalid CIDR'', tParseKind = ''CIDR_PARSE'', tCidrWord = '' cidr='',
     tNoPool = ''no pool defined for site'', tOutOfPool = ''out of pool'', tOutKind = ''OUT_OF_POOL'',
     tOutside = '' outside pools: '', tReserved = ''overlaps reserved range'',
     tReservedKind = ''RESERVED_OVERLAP''\<rparr>"

definition textsV6 :: cidrTexts where
  "textsV6 = \<lparr>tInvalid = ''invalid CIDR v6'', tParseKind = ''CIDR6_PARSE'', tCidrWord = '' cidr_v6='',
     tNoPool = ''no v6 pool defined for site'', tOutOfPool = ''v6 out of pool'',
     tOutKind = ''OUT_OF_POOL_V6'', tOutside = '' outside v6 pools: '',
     tReserved = ''overlaps v6 reserved range'', tReservedKind = ''RESERVED_OVERLAP_V6''\<rparr>"

type_synonym prefixByID = "int \<Rightarrow> prefix option"

text \<open>What the loop does with a CIDR string \<open>c\<close> of segment \<open>s\<close>: the parse error, or the
  pool check and the reserved check on the parsed prefix. \<^verbatim>\<open>prefixOK[id]\<close> is true exactly
  where \<^verbatim>\<open>prefixByID[id]\<close> has been set, so one map stands for both.\<close>

definition checkCIDR ::
  "golib \<Rightarrow> cidrTexts \<Rightarrow> prefixIndex \<Rightarrow> prefixIndex \<Rightarrow> ProjectRules \<Rightarrow> Segment \<Rightarrow> string \<Rightarrow>
   statusMap \<times> Conflict list \<times> prefixByID \<Rightarrow> statusMap \<times> Conflict list \<times> prefixByID" where
  "checkCIDR L T pools reserved rules s c state =
     (case state of (statuses, conflicts, byID) \<Rightarrow>
       (case ParsePrefix L c of
          None \<Rightarrow>
            (addStatus statuses (ID s) statusConflict (tInvalid T),
             conflicts @ [\<lparr>Kind = tParseKind T,
                            Detail = ''segment '' @ Name s @ '' site='' @ Site s @ tCidrWord T @ c @ '' parse error'',
                            Level = Label statusConflict\<rparr>],
             byID)
        | Some p \<Rightarrow>
            (let sitePools = indexGet pools (SiteID s);
                 outLevel = (if RequireInPool rules then statusConflict else statusWarning);
                 st1 = (if sitePools = [] then addStatus statuses (ID s) statusWarning (tNoPool T)
                        else if \<not> prefixInAnyPool p sitePools
                        then addStatus statuses (ID s) outLevel (tOutOfPool T)
                        else statuses);
                 cs1 = (if sitePools \<noteq> [] \<and> \<not> prefixInAnyPool p sitePools
                        then conflicts @ [\<lparr>Kind = tOutKind T,
                               Detail = ''segment '' @ Name s @ '' site='' @ Site s @ tCidrWord T @
                                        PrefixString L p @ tOutside T @ joinPrefixes L sitePools,
                               Level = Label outLevel\<rparr>]
                        else conflicts);
                 resLevel = (if \<not> AllowReservedOverlap rules then statusConflict else statusWarning)
             in (case find (\<lambda>r. prefixesOverlap r p) (indexGet reserved (SiteID s)) of
                   None \<Rightarrow> (st1, cs1, byID(ID s \<mapsto> p))
                 | Some r \<Rightarrow>
                     (addStatus st1 (ID s) resLevel (tReserved T),
                      cs1 @ [\<lparr>Kind = tReservedKind T,
                              Detail = ''segment '' @ Name s @ '' site='' @ Site s @ tCidrWord T @
                                       PrefixString L p @ '' overlaps reserved '' @ PrefixString L r,
                              Level = Label resLevel\<rparr>],
                      byID(ID s \<mapsto> p))))))"

text \<open>The body of the per-segment loop: the two warnings about the request, the IPv4
  block (with its \<^verbatim>\<open>else\<close> for a missing CIDR) and the IPv6 block.\<close>

definition requestStatuses :: "Segment \<Rightarrow> statusMap \<Rightarrow> statusMap" where
  "requestStatuses s statuses =
     (let st1 = (if Prefix s = None \<and> Hosts s = None
                 then addStatus statuses (ID s) statusWarning ''size request missing''
                 else statuses)
      in if PrefixV6 s \<noteq> None \<and> CIDRV6 s = None
         then addStatus st1 (ID s) statusWarning ''v6 not allocated''
         else st1)"

definition checkV4 ::
  "golib \<Rightarrow> prefixIndex \<Rightarrow> prefixIndex \<Rightarrow> ProjectRules \<Rightarrow> Segment \<Rightarrow>
   statusMap \<times> Conflict list \<times> prefixByID \<Rightarrow> statusMap \<times> Conflict list \<times> prefixByID" where
  "checkV4 L poolsV4 reservedV4 rules s state =
     (case CIDR s of
        None \<Rightarrow> (addStatus (fst state) (ID s) statusWarning ''not allocated'', snd state)
      | Some c \<Rightarrow> checkCIDR L textsV4 poolsV4 reservedV4 rules s c state)"

definition checkV6 ::
  "golib \<Rightarrow> prefixIndex \<Rightarrow> prefixIndex \<Rightarrow> ProjectRules \<Rightarrow> Segment \<Rightarrow>
   statusMap \<times> Conflict list \<times> prefixByID \<Rightarrow> statusMap \<times> Conflict list \<times> prefixByID" where
  "checkV6 L poolsV6 reservedV6 rules s state =
     (case CIDRV6 s of
        None \<Rightarrow> state
      | Some c6 \<Rightarrow> checkCIDR L textsV6 poolsV6 reservedV6 rules s c6 state)"

definition segmentChecks ::
  "golib \<Rightarrow> prefixIndex \<Rightarrow> prefixIndex \<Rightarrow> prefixIndex \<Rightarrow> prefixIndex \<Rightarrow> ProjectRules \<Rightarrow> Segment \<Rightarrow>
   statusMap \<times> Conflict list \<times> prefixByID \<times> prefixByID \<Rightarrow>
   statusMap \<times> Conflict list \<times> prefixByID \<times> prefixByID" where
  "segmentChecks L poolsV4 poolsV6 reservedV4 reservedV6 rules s state =
     (case state of (statuses, conflicts, byID, byIDV6) \<Rightarrow>
       (case checkV4 L poolsV4 reservedV4 rules s (requestStatuses s statuses, conflicts, byID) of
          (st3, cs3, byID') \<Rightarrow>
            (case checkV6 L poolsV6 reservedV6 rules s (st3, cs3, byIDV6) of
               (st4, cs4, byIDV6') \<Rightarrow> (st4, cs4, byID', byIDV6'))))"

definition segmentLoop ::
  "golib \<Rightarrow> prefixIndex \<Rightarrow> prefixIndex \<Rightarrow> prefixIndex \<Rightarrow> prefixIndex \<Rightarrow> ProjectRules \<Rightarrow>
   Segment list \<Rightarrow> statusMap \<times> Conflict list \<times> prefixByID \<times> prefixByID" where
  "segmentLoop L poolsV4 poolsV6 reservedV4 reservedV6 rules segs =
     foldl (\<lambda>state s. segmentChecks L poolsV4 poolsV6 reservedV4 reservedV6 rules s state)
       (Map.empty, [], Map.empty, Map.empty) segs"

text \<open>\<^verbatim>\<open>segByID\<close>: the last segment of the list with the id.\<close>

definition segByID :: "Segment list \<Rightarrow> int \<Rightarrow> Segment option" where
  "segByID segs = foldl (\<lambda>m s. m(ID s \<mapsto> s)) Map.empty segs"

definition buildGroups :: "prefixByID \<Rightarrow> Segment list \<Rightarrow> groupIndex" where
  "buildGroups byID segs =
     foldl (\<lambda>g s. if byID (ID s) = None then g else indexAppend g (Site s, VRF s) (ID s)) [] segs"

text \<open>The pairs \<^verbatim>\<open>(ids[i], ids[j])\<close> with \<^verbatim>\<open>i < j\<close>, in the order of the two nested loops.\<close>

fun pairsOf :: "'a list \<Rightarrow> ('a \<times> 'a) list" where
  "pairsOf [] = []"
| "pairsOf (x # xs) = map (Pair x) xs @ pairsOf xs"

definition overlapPair ::
  "golib \<Rightarrow> string \<Rightarrow> string \<Rightarrow> prefixByID \<Rightarrow> (int \<Rightarrow> Segment option) \<Rightarrow> string \<times> string \<Rightarrow>
   statusMap \<times> Conflict list \<Rightarrow> int \<times> int \<Rightarrow> statusMap \<times> Conflict list" where
  "overlapPair L kind word byID byIdSeg k state ab =
     (case state of (statuses, conflicts) \<Rightarrow>
       (case (byID (fst ab), byID (snd ab), byIdSeg (fst ab), byIdSeg (snd ab)) of
          (Some p1, Some p2, Some s1, Some s2) \<Rightarrow>
            if prefixesOverlap p1 p2
            then (addStatus (addStatus statuses (ID s1) statusConflict (word @ Name s2))
                    (ID s2) statusConflict (word @ Name s1),
                  conflicts @ [\<lparr>Kind = kind,
                     Detail = ''site='' @ fst k @ '' vrf='' @ snd k @ '': '' @ Name s1 @ '' '' @
                              PrefixString L p1 @ '' overlaps '' @ Name s2 @ '' '' @ PrefixString L p2,
                     Level = Label statusConflict\<rparr>])
            else (statuses, conflicts)
        | _ \<Rightarrow> (statuses, conflicts)))"

text \<open>One \<^verbatim>\<open>for k, ids := range group\<close> loop, over the groups in the runtime's order.\<close>

definition overlapLoop ::
  "golib \<Rightarrow> string \<Rightarrow> string \<Rightarrow> prefixByID \<Rightarrow> (int \<Rightarrow> Segment option) \<Rightarrow> groupIndex \<Rightarrow>
   statusMap \<times> Conflict list \<Rightarrow> statusMap \<times> Conflict list" where
  "overlapLoop L kind word byID byIdSeg groups state =
     foldl (\<lambda>st g. foldl (overlapPair L kind word byID byIdSeg (fst g)) st (pairsOf (snd g)))
       state groups"

definition vlanKey :: "Segment \<Rightarrow> ProjectRules \<Rightarrow> string" where
  "vlanKey s rules =
     (if VLANScope rules = VlanScopeGlobal then itoa (VLAN s)
      else if VLANScope rules = VlanScopeSite then Site s @ ''|'' @ itoa (VLAN s)
      else Site s @ ''|'' @ VRF s @ ''|'' @ itoa (VLAN s))"

definition vlanDup :: "Segment \<Rightarrow> Segment \<Rightarrow> Conflict" where
  "vlanDup first s =
     \<lparr>Kind = ''VLAN_DUP'',
      Detail = ''site='' @ Site s @ '' vrf='' @ VRF s @ '' vlan='' @ itoa (VLAN s) @
               '' duplicated: '' @ Name first @ '', '' @ Name s,
      Level = Label statusConflict\<rparr>"

text \<open>The body of the VLAN loop; \<^verbatim>\<open>segByID[firstID]\<close> is present for every id the loop has
  stored, and the zero \<^verbatim>\<open>Segment\<close> a missing key would give has the empty name.\<close>

definition vlanStep ::
  "ProjectRules \<Rightarrow> (int \<Rightarrow> Segment option) \<Rightarrow>
   (string \<Rightarrow> int option) \<times> statusMap \<times> Conflict list \<Rightarrow> Segment \<Rightarrow>
   (string \<Rightarrow> int option) \<times> statusMap \<times> Conflict list" where
  "vlanStep rules byIdSeg state s =
     (case state of (seenVLAN, statuses, conflicts) \<Rightarrow>
       (case seenVLAN (vlanKey s rules) of
          Some firstID \<Rightarrow>
            (seenVLAN,
             addStatus (addStatus statuses (ID s) statusConflict ''duplicate VLAN'')
               firstID statusConflict ''duplicate VLAN'',
             conflicts @ [vlanDup (case byIdSeg firstID of Some f \<Rightarrow> f
                                   | None \<Rightarrow> s\<lparr>Name := ''''\<rparr>) s])
        | None \<Rightarrow> (seenVLAN(vlanKey s rules \<mapsto> ID s), statuses, conflicts)))"

definition vlanLoop ::
  "ProjectRules \<Rightarrow> (int \<Rightarrow> Segment option) \<Rightarrow> Segment list \<Rightarrow> statusMap \<times> Conflict list \<Rightarrow>
   statusMap \<times> Conflict list" where
  "vlanLoop rules byIdSeg segs state =
     snd (foldl (vlanStep rules byIdSeg) (Map.empty, fst state, snd state) segs)"

definition finalStatuses :: "Segment list \<Rightarrow> statusMap \<Rightarrow> statusMap" where
  "finalStatuses segs statuses =
     (\<lambda>i. if i \<in> set (map ID segs)
           then Some (case statuses i of None \<Rightarrow> \<lparr>stLevel = statusOK, stDetails = []\<rparr> | Some st \<Rightarrow> st)
           else None)"

definition analyzeSegments ::
  "golib \<Rightarrow> rangeOrders \<Rightarrow> Segment list \<Rightarrow> prefixIndex \<Rightarrow> prefixIndex \<Rightarrow> prefixIndex \<Rightarrow>
   prefixIndex \<Rightarrow> ProjectRules \<Rightarrow> statusMap \<times> Conflict list" where
  "analyzeSegments L R segs poolsV4 poolsV6 reservedV4 reservedV6 rules =
     (case segmentLoop L poolsV4 poolsV6 reservedV4 reservedV6 rules segs of
        (st0, cs0, byID, byIDV6) \<Rightarrow>
          (let s1 = overlapLoop L ''OVERLAP'' ''overlap with '' byID (segByID segs)
                      (groupOrder4 R (buildGroups byID segs)) (st0, cs0);
               s2 = overlapLoop L ''OVERLAP_V6'' ''v6 overlap with '' byIDV6 (segByID segs)
                      (groupOrder6 R (buildGroups byIDV6 segs)) s1;
               s3 = vlanLoop rules (segByID segs) segs s2
           in (finalStatuses segs (fst s3), snd s3)))"


section \<open>analysis.go: decomposing a free range into prefixes\<close>

text \<open>\<^verbatim>\<open>bits.TrailingZeros32\<close> (32 for 0), and the inner loop of \<^verbatim>\<open>rangeToPrefixes\<close>
  that lengthens \<^verbatim>\<open>maxPref\<close> until the block fits the remaining length. The outer loop
  adds the block size to \<^verbatim>\<open>start\<close> in \<^verbatim>\<open>uint32\<close>; its bounds are \<^verbatim>\<open>uint32\<close> values, below
  \<open>2^32\<close>.\<close>


fun tzLoop :: "nat \<Rightarrow> nat \<Rightarrow> nat" where
  "tzLoop 0 n = 0"
| "tzLoop (Suc k) n = (if odd n then 0 else Suc (tzLoop k (n div 2)))"

definition TrailingZeros32 :: "nat \<Rightarrow> nat" where
  "TrailingZeros32 n = (if u32 n = 0 then 32 else tzLoop 32 (u32 n))"

function growPref :: "nat \<Rightarrow> nat \<Rightarrow> nat" where
  "growPref maxPref remaining =
     (if maxPref < 32 then (if 2 ^ (32 - maxPref) \<le> remaining then maxPref
                           else growPref (maxPref + 1) remaining)
      else maxPref)"
  by pat_completeness auto
termination
  by (relation "measure (\<lambda>(maxPref, remaining). 32 - maxPref)") auto

declare growPref.simps [simp del]

lemma growPref_block:
  "1 \<le> remaining \<Longrightarrow> m \<le> 32 \<Longrightarrow> growPref m remaining \<le> 32 \<and> 2 ^ (32 - growPref m remaining) \<le> remaining"
proof (induction m remaining rule: growPref.induct)
  case (1 maxPref remaining)
  show ?case
  proof (cases "maxPref < 32")
    case True
    show ?thesis
    proof (cases "2 ^ (32 - maxPref) \<le> remaining")
      case t: True
      with True have "growPref maxPref remaining = maxPref" by (subst growPref.simps) simp
      with t True show ?thesis by simp
    next
      case False
      with True have e: "growPref maxPref remaining = growPref (maxPref + 1) remaining"
        by (subst growPref.simps) simp
      from "1.IH"[OF True False "1.prems"(1)] True show ?thesis unfolding e by simp
    qed
  next
    case False
    then have "growPref maxPref remaining = maxPref" by (subst growPref.simps) simp
    with False "1.prems" show ?thesis by simp
  qed
qed

lemma sub32_plain:
  assumes "b \<le> a" and "a < 2 ^ 32"
  shows "sub32 a b = a - b"
proof -
  have b: "b mod 2 ^ 32 = b" using assms by simp
  have "a + 2 ^ 32 - b = (a - b) + 2 ^ 32" using assms by simp
  then have "(a + 2 ^ 32 - b) mod 2 ^ 32 = (a - b) mod 2 ^ 32" by (metis mod_add_self2)
  also have "\<dots> = a - b" using assms by (simp add: less_imp_diff_less)
  finally have e: "(a + 2 ^ 32 - b) mod 2 ^ 32 = a - b" .
  show ?thesis unfolding sub32_def b by (rule e)
qed

function rangeLoop :: "nat \<Rightarrow> nat \<Rightarrow> prefix list" where
  "rangeLoop start end =
     (if start \<le> end \<and> end < 2 ^ 32 then
        (let maxPref = growPref (32 - TrailingZeros32 start) (u64 (sub32 end start) + 1);
             p = Masked (PrefixFrom (u32ToIPv4 start) maxPref)
         in if maxPref = 0 then [p]
            else p # rangeLoop (u32 (start + u32 (2 ^ (32 - maxPref)))) end)
      else [])"
  by pat_completeness auto
termination
proof (relation "measure (\<lambda>(start, end). if start = 0 \<and> end = 2 ^ 32 - 1 then 0 else 2 ^ 32 - start)",
    goal_cases)
  case 1
  show ?case by simp
next
  case (2 start fin maxPref p)
  let ?rem = "u64 (sub32 fin start) + 1"
  from 2(1) have se: "start \<le> fin" "fin < 2 ^ 32" by auto
  then have sub: "sub32 fin start = fin - start" by (simp add: sub32_plain)
  have "(2::nat) ^ 32 < 2 ^ 64" by simp
  with se have "fin - start < 2 ^ 64" by linarith
  then have rem: "?rem = fin - start + 1" by (simp add: u64_def sub)
  have "32 - TrailingZeros32 start \<le> 32" by simp
  from growPref_block[OF _ this, of ?rem] 2(2)
  have g: "maxPref \<le> 32" "2 ^ (32 - maxPref) \<le> fin - start + 1" unfolding rem by auto
  from 2(4) have pos: "0 < maxPref" by simp
  have blk: "(2::nat) ^ (32 - maxPref) < 2 ^ 32"
    by (rule power_strict_increasing) (use pos g(1) in auto)
  then have ub: "u32 (2 ^ (32 - maxPref)) = 2 ^ (32 - maxPref)" by (simp add: u32_def)
  have bpos: "(0::nat) < 2 ^ (32 - maxPref)" by simp
  have notboth: "\<not> (start = 0 \<and> fin = 2 ^ 32 - 1)"
  proof
    assume a: "start = 0 \<and> fin = 2 ^ 32 - 1"
    then have "maxPref = growPref 0 (2 ^ 32)"
      using 2(2) by (simp add: TrailingZeros32_def u32_def u64_def sub32_def)
    also have "\<dots> = 0" by (subst growPref.simps) simp
    finally show False using pos by simp
  qed
  show ?case
  proof (cases "start + 2 ^ (32 - maxPref) < 2 ^ 32")
    case True
    then have u: "u32 (start + u32 (2 ^ (32 - maxPref))) = start + 2 ^ (32 - maxPref)"
      by (simp add: u32_def ub)
    have "(2::nat) ^ 32 - (start + 2 ^ (32 - maxPref)) < 2 ^ 32 - start"
      using True bpos by linarith
    with notboth show ?thesis unfolding u by auto
  next
    case False
    with g(2) se have eq: "start + 2 ^ (32 - maxPref) = 2 ^ 32" "fin = 2 ^ 32 - 1" by linarith+
    have "u32 (start + u32 (2 ^ (32 - maxPref))) = u32 (2 ^ 32)" unfolding ub eq(1) ..
    then have z: "u32 (start + u32 (2 ^ (32 - maxPref))) = 0" by (simp add: u32_def)
    have "0 < start" using eq(1) blk by (cases "start = 0") auto
    then show ?thesis unfolding z using eq(2) se by simp
  qed
qed

declare rangeLoop.simps [simp del]


definition rangeToPrefixes :: "ipv4Range \<Rightarrow> prefix list" where
  "rangeToPrefixes r = rangeLoop (rStart r) (rEnd r)"

text \<open>\<^verbatim>\<open>bigRangeToPrefixes\<close>: at most \<^verbatim>\<open>limit\<close> unit blocks from the aligned start of
  the range.\<close>

fun bigBlocks :: "nat \<Rightarrow> int \<Rightarrow> int \<Rightarrow> int \<Rightarrow> nat \<Rightarrow> prefix list" where
  "bigBlocks 0 start fin step unitPrefix = []"
| "bigBlocks (Suc n) start fin step unitPrefix =
     (if start + step - 1 > fin then []
      else (case bigToAddr start 128 of
              None \<Rightarrow> []
            | Some a \<Rightarrow> Masked (PrefixFrom a unitPrefix) # bigBlocks n (start + step) fin step unitPrefix))"

definition bigRangeToPrefixes :: "bigRange \<Rightarrow> int \<Rightarrow> int \<Rightarrow> prefix list" where
  "bigRangeToPrefixes r unitPrefix limit =
     (if unitPrefix \<le> 0 \<or> unitPrefix > 128 \<or> limit \<le> 0 then []
      else bigBlocks (nat limit) (alignUp (bigStart r) (2 ^ (128 - nat unitPrefix))) (bigEnd r)
             (2 ^ (128 - nat unitPrefix)) (nat unitPrefix))"

section \<open>analysis.go: scores\<close>

definition clampPct :: "int \<Rightarrow> int" where
  "clampPct v = (if v < 0 then 0 else if v > 100 then 100 else v)"

definition fragmentationScore :: "nat \<Rightarrow> nat \<Rightarrow> int" where
  "fragmentationScore tot largest =
     (if tot = 0 then 0
      else clampPct (wrap64 (int (u64 (sub64 tot largest * 100) div tot))))"

definition fragmentationScoreBig :: "golib \<Rightarrow> int \<Rightarrow> int \<Rightarrow> int" where
  "fragmentationScoreBig L tot largest =
     (if tot = 0 then 0
      else if tot - largest < 0 then 0
      else clampPct (Float64Pct L (tot - largest) tot))"

definition percentBig :: "golib \<Rightarrow> int \<Rightarrow> int \<Rightarrow> int" where
  "percentBig L num denom = (if denom = 0 then 0 else clampPct (Float64Pct L num denom))"

text \<open>\<^verbatim>\<open>big.Int.String\<close> and \<^verbatim>\<open>formatBigInt\<close>, which cuts the decimal text into groups of
  three from the right and joins them with an underscore.\<close>

definition bigString :: "int \<Rightarrow> string" where
  "bigString v =
     (if v = 0 then ''0''
      else if v < 0 then CHR ''-'' # itoaDigits (nat (- v)) []
      else itoaDigits (nat v) [])"

function threeParts :: "string \<Rightarrow> string list" where
  "threeParts text =
     (if length text > 3
      then threeParts (take (length text - 3) text) @ [drop (length text - 3) text]
      else [text])"
  by pat_completeness auto
termination
  by (relation "measure length") auto

declare threeParts.simps [simp del]

definition formatBigInt :: "int \<Rightarrow> string" where
  "formatBigInt v =
     (let text = bigString v
      in if length text \<le> 3 then text else joinWith ''_'' (threeParts text))"

section \<open>analysis.go: analyzeEfficiency\<close>

definition segmentsOfSite :: "Segment list \<Rightarrow> int \<Rightarrow> Segment list" where
  "segmentsOfSite segs siteID = filter (\<lambda>s. SiteID s = siteID) segs"

definition poolGap :: "golib \<Rightarrow> string \<Rightarrow> prefix \<Rightarrow> prefix \<Rightarrow> Conflict" where
  "poolGap L kind pool p =
     \<lparr>Kind = kind, Detail = ''pool '' @ PrefixString L pool @ '' free block '' @ PrefixString L p,
      Level = Label statusWarning\<rparr>"

text \<open>The two nested loops that emit at most three \<^verbatim>\<open>POOL_GAP\<close> hints for a pool, with
  the counter \<^verbatim>\<open>limit\<close>.\<close>

fun gapLoopV4 :: "golib \<Rightarrow> prefix \<Rightarrow> nat \<Rightarrow> ipv4Range list \<Rightarrow> Conflict list" where
  "gapLoopV4 L pool limit [] = []"
| "gapLoopV4 L pool limit (g # gs) =
     (if limit = 0 then []
      else (let ps = take limit (rangeToPrefixes g)
            in map (poolGap L ''POOL_GAP'' pool) ps @ gapLoopV4 L pool (limit - length ps) gs))"

fun gapLoopV6 :: "golib \<Rightarrow> prefix \<Rightarrow> int \<Rightarrow> nat \<Rightarrow> bigRange list \<Rightarrow> Conflict list" where
  "gapLoopV6 L pool unitPrefix limit [] = []"
| "gapLoopV6 L pool unitPrefix limit (g # gs) =
     (if limit = 0 then []
      else (let ps = take limit (bigRangeToPrefixes g unitPrefix (int limit))
            in map (poolGap L ''POOL_GAP_V6'' pool) ps @
               gapLoopV6 L pool unitPrefix (limit - length ps) gs))"

definition poolHintsV4 :: "golib \<Rightarrow> prefix \<Rightarrow> Segment list \<Rightarrow> prefix list \<Rightarrow> Conflict list" where
  "poolHintsV4 L pool segments reserved =
     (if \<not> Is4 (Addr pool) then []
      else (let used = buildUsedRanges L pool segments reserved;
                gaps = freeRanges pool used
            in if gaps = [] then []
               else (let totalFree = foldl (\<lambda>t g. u64 (t + gapSize g)) 0 gaps;
                         largest = foldl (\<lambda>m g. if gapSize g > m then gapSize g else m) 0 gaps;
                         fragScore = fragmentationScore totalFree largest
                     in \<lparr>Kind = ''POOL_FRAGMENTATION'',
                         Detail = ''pool '' @ PrefixString L pool @ '': free '' @
                                  itoa64 (wrap64 (int totalFree)) @ '' addrs, gaps='' @
                                  itoa (int (length gaps)) @ '', fragmentation='' @
                                  itoa fragScore @ ''%'',
                         Level = Label statusWarning\<rparr>
                        # gapLoopV4 L pool 3 gaps)))"

definition collectUsedPrefixesV6 :: "golib \<Rightarrow> Segment list \<Rightarrow> prefix list \<Rightarrow> prefix list" where
  "collectUsedPrefixesV6 L segs reserved =
     List.map_filter
       (\<lambda>s. case CIDRV6 s of
               None \<Rightarrow> None
             | Some c \<Rightarrow> (case ParsePrefix L c of
                            None \<Rightarrow> None
                          | Some p \<Rightarrow> if Is6 (Addr p) then Some p else None))
       segs
     @ filter (\<lambda>r. Is6 (Addr r)) reserved"

definition poolHintsV6 :: "golib \<Rightarrow> prefix \<Rightarrow> Segment list \<Rightarrow> prefix list \<Rightarrow> Conflict list" where
  "poolHintsV6 L pool segments reserved =
     (if \<not> Is6 (Addr pool) then []
      else (let usedPrefixes = collectUsedPrefixesV6 L segments reserved;
                used = buildUsedRangesBig pool usedPrefixes;
                gaps = freeRangesBig pool used
            in if gaps = [] then []
               else (let totalFree = foldl (\<lambda>t g. t + bigRangeSize g) 0 gaps;
                         largest = foldl (\<lambda>m g. if bigRangeSize g > m then bigRangeSize g else m) 0 gaps;
                         unitPrefix = (if int (Bits pool) > 64 then int (Bits pool) else 64);
                         unitSize = 2 ^ (128 - nat unitPrefix);
                         totalUnits = totalFree div unitSize;
                         largestUnits = largest div unitSize;
                         fragScore = fragmentationScoreBig L totalUnits largestUnits
                     in \<lparr>Kind = ''POOL_FRAGMENTATION_V6'',
                         Detail = ''pool '' @ PrefixString L pool @ '': free '' @
                                  formatBigInt totalUnits @ '' /'' @ itoa unitPrefix @
                                  '' blocks, gaps='' @ itoa (int (length gaps)) @
                                  '', fragmentation='' @ itoa fragScore @ ''%'',
                         Level = Label statusWarning\<rparr>
                        # gapLoopV6 L pool unitPrefix 3 gaps)))"

text \<open>The body of the loop that flags oversized IPv4 segments: no conflict or one.\<close>

definition oversizedV4 :: "golib \<Rightarrow> ProjectRules \<Rightarrow> Segment \<Rightarrow> Conflict list" where
  "oversizedV4 L rules s =
     (case (Hosts s, CIDR s) of
        (Some h, Some c) \<Rightarrow>
          (case ParsePrefix L c of
             None \<Rightarrow> []
           | Some pre \<Rightarrow>
               if \<not> Is4 (Addr pre) then []
               else (let required = hostsToPrefixIPv4 h
                     in if required \<le> 0 then []
                        else if int (Bits pre) \<ge> required then []
                        else (let actualSize = u64 (2 ^ (32 - Bits pre));
                                  requiredSize = u64 (2 ^ nat (32 - required));
                                  unusedPct = wrap64 (int (u64 (sub64 actualSize requiredSize * 100)
                                                            div actualSize))
                              in if unusedPct \<ge> OversizeThreshold rules
                                 then [\<lparr>Kind = ''OVERSIZED'',
                                        Detail = ''segment '' @ Name s @ '' site='' @ Site s @ '' '' @
                                                 PrefixString L pre @ '' exceeds hosts by '' @
                                                 itoa unusedPct @ ''% (need /'' @ itoa required @ '')'',
                                        Level = Label statusWarning\<rparr>]
                                 else [])))
      | _ \<Rightarrow> [])"

definition oversizedV6 :: "golib \<Rightarrow> ProjectRules \<Rightarrow> Segment \<Rightarrow> Conflict list" where
  "oversizedV6 L rules s =
     (case (PrefixV6 s, CIDRV6 s) of
        (Some requested, Some c) \<Rightarrow>
          (case ParsePrefix L c of
             None \<Rightarrow> []
           | Some pre \<Rightarrow>
               if \<not> Is6 (Addr pre) then []
               else if requested \<le> 0 \<or> requested > 128 then []
               else if int (Bits pre) \<ge> requested then []
               else (let actualSize = prefixSize pre;
                         requestedSize = 2 ^ nat (128 - requested);
                         unusedPct = percentBig L (actualSize - requestedSize) actualSize
                     in if unusedPct \<ge> OversizeThreshold rules
                        then [\<lparr>Kind = ''OVERSIZED_V6'',
                               Detail = ''segment '' @ Name s @ '' site='' @ Site s @ '' '' @
                                        PrefixString L pre @ '' exceeds v6 request by '' @
                                        itoa unusedPct @ ''% (need /'' @ itoa requested @ '')'',
                               Level = Label statusWarning\<rparr>]
                        else []))
      | _ \<Rightarrow> [])"

definition sitePoolHints ::
  "(prefix \<Rightarrow> Segment list \<Rightarrow> prefix list \<Rightarrow> Conflict list) \<Rightarrow> Segment list \<Rightarrow> prefixIndex \<Rightarrow>
   prefixIndex \<Rightarrow> Conflict list" where
  "sitePoolHints hints segs reserved walk =
     concat (map (\<lambda>e. concat (map (\<lambda>pool. hints pool (segmentsOfSite segs (fst e))
                                               (indexGet reserved (fst e))) (snd e))) walk)"

definition analyzeEfficiency ::
  "golib \<Rightarrow> rangeOrders \<Rightarrow> Segment list \<Rightarrow> prefixIndex \<Rightarrow> prefixIndex \<Rightarrow> prefixIndex \<Rightarrow>
   prefixIndex \<Rightarrow> ProjectRules \<Rightarrow> Conflict list" where
  "analyzeEfficiency L R segs poolsBySiteV4 poolsBySiteV6 reservedV4 reservedV6 rules =
     sitePoolHints (poolHintsV4 L) segs reservedV4 (siteOrder4 R poolsBySiteV4) @
     sitePoolHints (poolHintsV6 L) segs reservedV6 (siteOrder6 R poolsBySiteV6) @
     concat (map (oversizedV4 L rules) segs) @
     concat (map (oversizedV6 L rules) segs)"

section \<open>analysis.go: analyzeAll\<close>

definition analyzeAll ::
  "golib \<Rightarrow> rangeOrders \<Rightarrow> Segment list \<Rightarrow> Pool list \<Rightarrow> SiteRec list \<Rightarrow> ProjectRules \<Rightarrow>
   statusMap \<times> Conflict list" where
  "analyzeAll L R segs pools sites rules =
     (case buildPoolIndex L pools of
        (poolsBySiteV4, poolsBySiteV6) \<Rightarrow>
          (case buildReservedIndex L sites of
             (reservedV4, reservedV6, reservedConflicts) \<Rightarrow>
               (case analyzeSegments L R segs poolsBySiteV4 poolsBySiteV6 reservedV4 reservedV6 rules of
                  (statuses, conflicts) \<Rightarrow>
                    (statuses,
                     reservedConflicts @ conflicts @
                     analyzeEfficiency L R segs poolsBySiteV4 poolsBySiteV6 reservedV4 reservedV6 rules))))"


section \<open>Concrete inputs\<close>

text \<open>\<^verbatim>\<open>int(f * 100)\<close> for the \<^verbatim>\<open>float64\<close> \<open>f\<close> nearest to \<open>num/denom\<close>, in exact integer
  arithmetic. A \<^verbatim>\<open>float64\<close> is a significand \<open>m\<close> of at most 53 bits and an exponent \<open>e\<close>,
  standing for \<open>m * 2^e\<close>; \<open>float64Round n d\<close> is the one nearest to \<open>n/d\<close> (ties to the even
  significand), for positive \<open>n\<close> and \<open>d\<close> whose quotient is in the normal range, as the
  quotients of 128-bit values are. The product by 100 is rounded again, and the
  conversion to \<^verbatim>\<open>int\<close> cuts the fraction; from \<open>2^63\<close> on it gives the least \<^verbatim>\<open>int64\<close>, as
  the conversion does on amd64.\<close>

fun binLen :: "nat \<Rightarrow> nat" where
  "binLen n = (if n = 0 then 0 else Suc (binLen (n div 2)))"

declare binLen.simps [simp del]

definition roundHalfEven :: "int \<Rightarrow> int \<Rightarrow> int" where
  "roundHalfEven n d =
     (let q = n div d; r = n mod d
      in if 2 * r < d then q else if 2 * r > d then q + 1 else if even q then q else q + 1)"

text \<open>\<open>scale2 n d e\<close> is the fraction \<open>(n/d) / 2^e\<close>.\<close>

definition scale2 :: "int \<Rightarrow> int \<Rightarrow> int \<Rightarrow> int \<times> int" where
  "scale2 n d e = (if e \<ge> 0 then (n, d * 2 ^ nat e) else (n * 2 ^ nat (- e), d))"

definition float64Round :: "int \<Rightarrow> int \<Rightarrow> int \<times> int" where
  "float64Round n d =
     (let k = int (binLen (nat n)) - int (binLen (nat d));
          lg = (case scale2 n d k of (a, b) \<Rightarrow> if a \<ge> b then k else k - 1);
          e = lg - 52
      in (case scale2 n d e of (a, b) \<Rightarrow> (roundHalfEven a b, e)))"

definition float64Pct :: "int \<Rightarrow> int \<Rightarrow> int" where
  "float64Pct num denom =
     (if num = 0 \<or> denom = 0 then 0
      else (case float64Round \<bar>num\<bar> \<bar>denom\<bar> of
              (m, e) \<Rightarrow>
                (case scale2 (m * 100) 1 (- e) of
                   (a, b) \<Rightarrow>
                     (case float64Round a b of
                        (m2, e2) \<Rightarrow>
                          (let v = (case scale2 m2 1 (- e2) of (x, y) \<Rightarrow> x div y)
                           in if v \<ge> 2 ^ 63 then - (2 ^ 63)
                              else if (num < 0) = (denom < 0) then v else - v)))))"

text \<open>A library instance that reads and prints the CIDR strings of a finite table and
  leaves letter case and spaces alone, and the store that logs what it executes.\<close>

definition tableLib :: "(string \<times> prefix) list \<Rightarrow> golib" where
  "tableLib tab =
     \<lparr>ParsePrefix = map_of tab,
      PrefixString = (\<lambda>p. case find (\<lambda>e. snd e = p) tab of Some e \<Rightarrow> fst e | None \<Rightarrow> ''''),
      TrimSpace = id, ToLower = id,
      Float64Pct = float64Pct\<rparr>"

definition logExec :: "stmt list \<Rightarrow> stmt \<Rightarrow> string option \<times> stmt list" where
  "logExec st q = (None, st @ [q])"

definition ip4 :: "nat \<Rightarrow> nat \<Rightarrow> nat \<Rightarrow> nat \<Rightarrow> nat \<Rightarrow> prefix" where
  "ip4 a b c d len = PrefixFrom (Addr4 (((a * 256 + b) * 256 + c) * 256 + d)) len"

definition mkSeg :: "int \<Rightarrow> string \<Rightarrow> string \<Rightarrow> int \<Rightarrow> string \<Rightarrow> int option \<Rightarrow> int option \<Rightarrow> string option \<Rightarrow> bool \<Rightarrow> Segment" where
  "mkSeg i site vrf vlan name hosts pre cidr locked =
     \<lparr>ID = i, SiteID = 1, Site = site, VRF = vrf, VLAN = vlan, Name = name, Hosts = hosts,
      Prefix = pre, CIDR = cidr, PrefixV6 = None, CIDRV6 = None, Locked = locked,
      Tags = None, PoolTier = None\<rparr>"

definition mkPool :: "string \<Rightarrow> Pool" where
  "mkPool cidr =
     \<lparr>PoolID = 1, PoolSiteID = 1, PoolSite = ''A'', PoolCIDR = cidr, Family = ''ipv4'',
      Tier = None, Priority = 0\<rparr>"

definition mkItem :: "string \<Rightarrow> prefix \<Rightarrow> poolItem" where
  "mkItem cidr p = \<lparr>iPool = mkPool cidr, iPrefix = p, iTier = ''''\<rparr>"

definition defaultProjectRules :: ProjectRules where
  "defaultProjectRules =
     \<lparr>VLANScope = VlanScopeSiteVRF, RequireInPool = True, AllowReservedOverlap = False,
      OversizeThreshold = 50, PoolStrategy = PoolStrategySpillover, PoolTierFallback = True\<rparr>"

text \<open>Three segments asking for a /30, a /29 and a /30 of the pool \<^verbatim>\<open>10.0.0.0/29\<close>.\<close>

definition segsA :: "Segment list" where
  "segsA = [mkSeg 1 ''A'' ''X'' 10 ''a'' None (Some 30) None False,
            mkSeg 2 ''A'' ''X'' 11 ''b'' None (Some 29) None False,
            mkSeg 3 ''A'' ''X'' 12 ''c'' None (Some 30) None False]"

definition libA :: golib where
  "libA = tableLib [(''10.0.0.0/29'', ip4 10 0 0 0 29)]"

text \<open>The plan of the smoke test: pool \<^verbatim>\<open>10.30.0.0/24\<close>, reserved \<^verbatim>\<open>10.30.0.0/28\<close>, the
  locked segment \<^verbatim>\<open>mgmt\<close> at \<^verbatim>\<open>10.30.0.64/26\<close>, and \<^verbatim>\<open>users\<close> (60 hosts) and \<^verbatim>\<open>voice\<close>
  (50 hosts) to be placed.\<close>

definition libB :: golib where
  "libB = tableLib [(''10.30.0.0/24'', ip4 10 30 0 0 24), (''10.30.0.0/28'', ip4 10 30 0 0 28),
                    (''10.30.0.64/26'', ip4 10 30 0 64 26), (''10.30.0.128/26'', ip4 10 30 0 128 26),
                    (''10.30.0.192/26'', ip4 10 30 0 192 26)]"

definition mgmtB :: Segment where
  "mgmtB = mkSeg 1 ''SAI'' ''MGMT'' 20 ''mgmt'' None (Some 26) (Some ''10.30.0.64/26'') True"

definition usersB :: Segment where
  "usersB = mkSeg 2 ''SAI'' ''PROD'' 10 ''users'' (Some 60) None None False"

definition voiceB :: Segment where
  "voiceB = mkSeg 3 ''SAI'' ''PROD'' 11 ''voice'' (Some 50) None None False"

definition segsB :: "Segment list" where
  "segsB = [mgmtB, usersB, voiceB]"

definition planB :: allocMap where
  "planB = [1 \<mapsto> ip4 10 30 0 64 26, 2 \<mapsto> ip4 10 30 0 128 26, 3 \<mapsto> ip4 10 30 0 192 26]"

text \<open>A pool that ends at the last IPv4 address, with a segment in its upper half.\<close>

definition libT :: golib where
  "libT = tableLib [(''255.255.255.0/24'', ip4 255 255 255 0 24),
                    (''255.255.255.128/25'', ip4 255 255 255 128 25),
                    (''255.255.255.192/26'', ip4 255 255 255 192 26)]"

definition segT :: Segment where
  "segT = mkSeg 1 ''T'' ''X'' 10 ''top'' None (Some 25) (Some ''255.255.255.128/25'') True"

text \<open>Two orders in which the runtime may walk the analyzer's maps.\<close>

definition insertionOrders :: rangeOrders where
  "insertionOrders = \<lparr>groupOrder4 = id, groupOrder6 = id, siteOrder4 = id, siteOrder6 = id\<rparr>"

definition reverseOrders :: rangeOrders where
  "reverseOrders = \<lparr>groupOrder4 = rev, groupOrder6 = rev, siteOrder4 = rev, siteOrder6 = rev\<rparr>"

text \<open>Four assigned segments of one site: two that overlap in VRF \<^verbatim>\<open>A\<close> and two that
  overlap in VRF \<^verbatim>\<open>B\<close>.\<close>

definition libO :: golib where
  "libO = tableLib [(''10.20.0.0/26'', ip4 10 20 0 0 26), (''10.20.0.0/25'', ip4 10 20 0 0 25)]"

definition segsO :: "Segment list" where
  "segsO =
     [mkSeg 1 ''R1'' ''A'' 10 ''a1'' None (Some 26) (Some ''10.20.0.0/26'') True,
      mkSeg 2 ''R1'' ''A'' 11 ''a2'' None (Some 25) (Some ''10.20.0.0/25'') True,
      mkSeg 3 ''R1'' ''B'' 12 ''b1'' None (Some 26) (Some ''10.20.0.0/26'') True,
      mkSeg 4 ''R1'' ''B'' 13 ''b2'' None (Some 25) (Some ''10.20.0.0/25'') True]"

text \<open>A segment that asks for 10 hosts and holds a /24.\<close>

definition libV :: golib where
  "libV = tableLib [(''10.20.0.0/24'', ip4 10 20 0 0 24)]"

definition segV :: Segment where
  "segV = mkSeg 1 ''R1'' ''A'' 10 ''a1'' (Some 10) None (Some ''10.20.0.0/24'') False"


section \<open>The VLAN loop as a function of the list\<close>

text \<open>What \<^verbatim>\<open>seenVLAN\<close> holds after the loop has walked \<open>pre\<close>: for each key the id of the
  first segment with the key.\<close>

definition seenOf :: "ProjectRules \<Rightarrow> Segment list \<Rightarrow> string \<Rightarrow> int option" where
  "seenOf rules pre k = map_option ID (find (\<lambda>t. vlanKey t rules = k) pre)"

text \<open>The conflicts the loop appends while walking \<open>rest\<close> after \<open>pre\<close>.\<close>

fun vlanWalk ::
  "ProjectRules \<Rightarrow> (int \<Rightarrow> Segment option) \<Rightarrow> Segment list \<Rightarrow> Segment list \<Rightarrow> Conflict list" where
  "vlanWalk rules byId pre [] = []"
| "vlanWalk rules byId pre (s # rest) =
     (case find (\<lambda>t. vlanKey t rules = vlanKey s rules) pre of
        None \<Rightarrow> []
      | Some f \<Rightarrow> [vlanDup (case byId (ID f) of Some g \<Rightarrow> g | None \<Rightarrow> s\<lparr>Name := ''''\<rparr>) s])
     @ vlanWalk rules byId (pre @ [s]) rest"

definition isConf :: "statusMap \<Rightarrow> int \<Rightarrow> bool" where
  "isConf st i = (case st i of Some x \<Rightarrow> stLevel x = statusConflict | None \<Rightarrow> False)"

definition dupPairsConf :: "ProjectRules \<Rightarrow> Segment list \<Rightarrow> statusMap \<Rightarrow> bool" where
  "dupPairsConf rules segs st =
     (\<forall>i j. i < j \<and> j < length segs \<and> vlanKey (segs ! i) rules = vlanKey (segs ! j) rules \<longrightarrow>
        isConf st (ID (segs ! i)) \<and> isConf st (ID (segs ! j)))"

text \<open>The kinds of conflict the per-segment loop emits.\<close>

definition segmentKinds :: "string set" where
  "segmentKinds = {''CIDR_PARSE'', ''OUT_OF_POOL'', ''RESERVED_OVERLAP'',
                   ''CIDR6_PARSE'', ''OUT_OF_POOL_V6'', ''RESERVED_OVERLAP_V6''}"

text \<open>Two segments of site \<^verbatim>\<open>R1\<close> with VLAN 10, one in VRF \<^verbatim>\<open>A\<close> and one in VRF \<^verbatim>\<open>B\<close>.\<close>

definition libD :: golib where
  "libD = tableLib [(''10.20.0.0/26'', ip4 10 20 0 0 26), (''10.20.0.64/26'', ip4 10 20 0 64 26)]"

definition segDa :: Segment where
  "segDa = mkSeg 1 ''R1'' ''A'' 10 ''seg-a'' None (Some 26) (Some ''10.20.0.0/26'') True"

definition segDb :: Segment where
  "segDb = mkSeg 2 ''R1'' ''B'' 10 ''seg-b'' None (Some 26) (Some ''10.20.0.64/26'') True"

definition segsD :: "Segment list" where
  "segsD = [segDa, segDb]"

definition poolsD :: prefixIndex where
  "poolsD = [(1, [ip4 10 20 0 0 24])]"

definition siteScopeRules :: ProjectRules where
  "siteScopeRules = defaultProjectRules\<lparr>VLANScope := VlanScopeSite\<rparr>"

definition globalScopeRules :: ProjectRules where
  "globalScopeRules = defaultProjectRules\<lparr>VLANScope := VlanScopeGlobal\<rparr>"

text \<open>A third segment, of site \<^verbatim>\<open>R2\<close>, with VLAN 10 as well.\<close>

definition segDc :: Segment where
  "segDc = mkSeg 3 ''R2'' ''A'' 10 ''seg-c'' None (Some 26) (Some ''10.20.0.64/26'') True"

definition segsG :: "Segment list" where
  "segsG = [segDa, segDc]"

text \<open>The values of a Go \<^verbatim>\<open>int\<close> (64 bits).\<close>

definition goInt :: "int \<Rightarrow> bool" where
  "goInt i = (- (2 ^ 63) \<le> i \<and> i < 2 ^ 63)"

text \<open>The specification's reading of the key: two segments are in the same VLAN scope
  when they have the same VLAN (scope \<^verbatim>\<open>global\<close>), the same site and VLAN (scope \<^verbatim>\<open>site\<close>),
  or the same site, VRF and VLAN (any other scope).\<close>

definition specSameVlanScope :: "ProjectRules \<Rightarrow> Segment \<Rightarrow> Segment \<Rightarrow> bool" where
  "specSameVlanScope rules s t =
     (if VLANScope rules = ''global'' then VLAN s = VLAN t
      else if VLANScope rules = ''site'' then Site s = Site t \<and> VLAN s = VLAN t
      else Site s = Site t \<and> VRF s = VRF t \<and> VLAN s = VLAN t)"

section \<open>A request that cannot be placed in a pool that is held\<close>

text \<open>The pool \<^verbatim>\<open>0.0.0.0/1\<close>, a locked segment that holds all of it, and an unlocked segment
  asking for a \<^verbatim>\<open>/1\<close>. \<open>spinning\<close> holds of the states the loop of \<open>allocateInPoolIPv4\<close> goes
  through on this input.\<close>

definition libN :: golib where
  "libN = tableLib [(''0.0.0.0/1'', ip4 0 0 0 0 1)]"

definition segHeld :: Segment where
  "segHeld = mkSeg 1 ''A'' ''X'' 10 ''held'' None None (Some ''0.0.0.0/1'') True"

definition segAsk :: Segment where
  "segAsk = mkSeg 2 ''A'' ''X'' 11 ''asks'' None (Some 1) None False"

definition spinning :: "prefix \<Rightarrow> nat \<Rightarrow> prefix list \<Rightarrow> nat \<Rightarrow> nat \<Rightarrow> nat \<Rightarrow> bool" where
  "spinning pool want used step fin cur =
     (pool = ip4 0 0 0 0 1 \<and> want = 1 \<and> used = [ip4 0 0 0 0 1] \<and>
      step = 2147483648 \<and> fin = 2147483648 \<and> (cur = 0 \<or> cur = 2147483648))"
section \<open>Properties: host counts\<close>

lemma wrap64_id: "- (2 ^ 63) \<le> x \<Longrightarrow> x < 2 ^ 63 \<Longrightarrow> wrap64 x = x"
  by (simp add: wrap64_def)

lemma hostsLoop_spec:
  "1 \<le> p \<Longrightarrow> p \<le> 32 \<Longrightarrow> need \<le> 2 ^ 31 \<Longrightarrow>
   (p < 32 \<longrightarrow> 2 ^ nat (32 - (p + 1)) < need) \<Longrightarrow>
   1 \<le> hostsLoop need p \<and> hostsLoop need p \<le> p \<and>
   need \<le> 2 ^ nat (32 - hostsLoop need p) \<and>
   (hostsLoop need p < 32 \<longrightarrow> 2 ^ nat (32 - (hostsLoop need p + 1)) < need)"
proof (induction need p rule: hostsLoop.induct)
  case (1 need p)
  show ?case
  proof (cases "(2::int) ^ nat (32 - p) \<ge> need")
    case True
    with "1.prems"(1) have "hostsLoop need p = p"
      by (subst hostsLoop.simps) simp
    with "1.prems" True show ?thesis by simp
  next
    case False
    have p1: "p \<noteq> 1"
    proof
      assume "p = 1"
      with False "1.prems"(3) show False by simp
    qed
    with "1.prems" have ge: "1 \<le> p - 1" "p - 1 \<le> 32" by auto
    have nxt: "p - 1 < 32 \<longrightarrow> 2 ^ nat (32 - (p - 1 + 1)) < need"
      using False by simp
    have step: "hostsLoop need p = hostsLoop need (p - 1)"
      using "1.prems"(1) False by (subst hostsLoop.simps) simp
    from "1.IH"[OF "1.prems"(1) False ge "1.prems"(3) nxt]
    show ?thesis unfolding step by linarith
  qed
qed

text \<open>C3. For every host count \<open>h\<close> with \<open>1 \<le> h \<le> 2^30\<close>, the length
  \<open>L = hostsToPrefixIPv4 h\<close> is a prefix length between 1 and 32 whose block holds
  \<open>h + 3\<close> addresses (\<open>2^(32-L) \<ge> h + 3\<close>) while the next longer prefix does not
  (\<open>2^(32-(L+1)) < h + 3\<close>).\<close>

theorem hostsToPrefixIPv4_fits_minimal:
  assumes "1 \<le> h" and "h \<le> 2 ^ 30"
  shows "1 \<le> hostsToPrefixIPv4 h \<and> hostsToPrefixIPv4 h + 1 \<le> 32 \<and>
         2 ^ nat (32 - hostsToPrefixIPv4 h) \<ge> h + 3 \<and>
         2 ^ nat (32 - (hostsToPrefixIPv4 h + 1)) < h + 3"
proof -
  have w: "wrap64 (h + 3) = h + 3"
    using assms by (intro wrap64_id) auto
  have need: "h + 3 \<le> 2 ^ 31" using assms by simp
  have spec: "1 \<le> hostsLoop (h + 3) 32 \<and> hostsLoop (h + 3) 32 \<le> 32 \<and>
      h + 3 \<le> 2 ^ nat (32 - hostsLoop (h + 3) 32) \<and>
      (hostsLoop (h + 3) 32 < 32 \<longrightarrow> 2 ^ nat (32 - (hostsLoop (h + 3) 32 + 1)) < h + 3)"
    by (rule hostsLoop_spec) (use need in auto)
  have "hostsLoop (h + 3) 32 \<noteq> 32"
  proof
    assume "hostsLoop (h + 3) 32 = 32"
    with spec have "h + 3 \<le> 1" by simp
    with assms show False by simp
  qed
  with spec show ?thesis unfolding hostsToPrefixIPv4_def w by auto
qed

theorem hostsToPrefixIPv4_fits_minimal_witness:
  "(1::int) \<le> 253 \<and> (253::int) \<le> 2 ^ 30 \<and> hostsToPrefixIPv4 253 = 24 \<and>
   (2::int) ^ nat (32 - hostsToPrefixIPv4 253) \<ge> 253 + 3 \<and>
   (2::int) ^ nat (32 - (hostsToPrefixIPv4 253 + 1)) < 253 + 3"
proof -
  have a: "(1::int) \<le> 253" and b: "(253::int) \<le> 2 ^ 30" by simp_all
  have v: "hostsToPrefixIPv4 253 = 24"
    by (simp add: hostsToPrefixIPv4_def wrap64_def hostsLoop.simps)
  from hostsToPrefixIPv4_fits_minimal[OF a b] a b v show ?thesis by simp
qed


section \<open>Properties: the allocation strategies\<close>


lemmas eval_defs = allocateInPool_def allocateInPoolIPv4_def allocLoopIPv4.simps u32_def ipv4ToU32_def
    Masked_def hostBits_def u32ToIPv4_def Contains_def overlapsAny_def prefixesOverlap_def
    allocateSpillover_def spillPoolList_def desiredPrefixByFamily_def desiredPrefix_def
    mkSeg_def mkItem_def mkPool_def defaultProjectRules_def ip4_def
    PoolStrategySpillover_def PoolStrategyTiered_def PoolStrategyContig_def

lemma spillLoop_conflicts:
  "spillLoop L items rules family strict segs used alloc cs = Some (a, cs') \<Longrightarrow>
   set cs' \<subseteq> set cs \<union> (\<lambda>s. allocateFail s family) ` set segs"
proof (induction segs arbitrary: used alloc cs)
  case Nil
  then show ?case by simp
next
  case (Cons s segs)
  show ?case
    using Cons.prems
    by (simp split: if_splits option.splits) (use Cons.IH in fastforce)+
qed

lemma contigConflicts_subset:
  "set (contigConflicts pending family strict) \<subseteq> (\<lambda>s. allocateFail s family) ` set pending"
  by (auto simp: contigConflicts_def dest: in_set_takeD)

lemma allocateFail_fields:
  "Kind (allocateFail s family) = ''ALLOCATE_FAIL''" "Level (allocateFail s family) = ''Warning''"
  by (simp_all add: allocateFail_def)

lemma spillLoop_dom:
  "spillLoop L items rules family strict segs used alloc cs = Some (a, cs') \<Longrightarrow>
   dom a \<subseteq> dom alloc \<union> ID ` set segs"
proof (induction segs arbitrary: used alloc cs)
  case Nil
  then show ?case by auto
next
  case (Cons s segs)
  show ?case
    using Cons.prems
    by (simp split: if_splits option.splits) (use Cons.IH in fastforce)+
qed

lemma spillLoop_strict:
  "spillLoop L items rules family True segs used alloc cs = Some (a, cs') \<Longrightarrow>
   cs' = cs \<or>
   (\<exists>pre s post. segs = pre @ s # post \<and> cs' = cs @ [allocateFail s family] \<and>
      desiredPrefixByFamily s family \<noteq> 0 \<and>
      spillLoop L items rules family True pre used alloc cs = Some (a, cs))"
proof (induction segs arbitrary: used alloc cs)
  case Nil
  then show ?case by simp
next
  case (Cons s segs)
  show ?case
  proof (cases "desiredPrefixByFamily s family = 0")
    case True
    with Cons.prems have "spillLoop L items rules family True segs used alloc cs = Some (a, cs')"
      by simp
    from Cons.IH[OF this] show ?thesis
    proof
      assume "cs' = cs" then show ?thesis by simp
    next
      assume "\<exists>pre s post. segs = pre @ s # post \<and> cs' = cs @ [allocateFail s family] \<and>
        desiredPrefixByFamily s family \<noteq> 0 \<and>
        spillLoop L items rules family True pre used alloc cs = Some (a, cs)"
      then obtain pre t post where h: "segs = pre @ t # post" "cs' = cs @ [allocateFail t family]"
        "desiredPrefixByFamily t family \<noteq> 0"
        "spillLoop L items rules family True pre used alloc cs = Some (a, cs)" by blast
      have "s # segs = (s # pre) @ t # post" using h(1) by simp
      moreover have "spillLoop L items rules family True (s # pre) used alloc cs = Some (a, cs)"
        using True h(4) by simp
      ultimately show ?thesis using h(2,3) by blast
    qed
  next
    case False
    show ?thesis
    proof (cases "firstFit (spillPoolList L items rules s) (desiredPrefixByFamily s family) used")
      case None
      with False Cons.prems show ?thesis by simp
    next
      case (Some r)
      show ?thesis
      proof (cases r)
        case None
        with Some False Cons.prems have e: "a = alloc" "cs' = cs @ [allocateFail s family]" by auto
        have "s # segs = [] @ s # segs" by simp
        moreover have "spillLoop L items rules family True [] used alloc cs = Some (a, cs)"
          using e by simp
        ultimately show ?thesis using e(2) False by blast
      next
        case (Some p)
        with \<open>firstFit _ _ _ = Some r\<close> False Cons.prems
        have run: "spillLoop L items rules family True segs (used @ [p]) (alloc(ID s \<mapsto> p)) cs = Some (a, cs')"
          by simp
        from Cons.IH[OF run] show ?thesis
        proof
          assume "cs' = cs" then show ?thesis by simp
        next
          assume "\<exists>pre t post. segs = pre @ t # post \<and> cs' = cs @ [allocateFail t family] \<and>
            desiredPrefixByFamily t family \<noteq> 0 \<and>
            spillLoop L items rules family True pre (used @ [p]) (alloc(ID s \<mapsto> p)) cs = Some (a, cs)"
          then obtain pre t post where h: "segs = pre @ t # post" "cs' = cs @ [allocateFail t family]"
            "desiredPrefixByFamily t family \<noteq> 0"
            "spillLoop L items rules family True pre (used @ [p]) (alloc(ID s \<mapsto> p)) cs = Some (a, cs)"
            by blast
          have "s # segs = (s # pre) @ t # post" using h(1) by simp
          moreover have "spillLoop L items rules family True (s # pre) used alloc cs = Some (a, cs)"
            using False Some \<open>firstFit _ _ _ = Some r\<close> h(4) by simp
          ultimately show ?thesis using h(2,3) by blast
        qed
      qed
    qed
  qed
qed


text \<open>C10. Every conflict that \<open>allocateSpillover\<close> or \<open>allocateContiguous\<close> returns is an
  \<^verbatim>\<open>ALLOCATE_FAIL\<close> whose level is the label of \<open>statusWarning\<close>, the string
  \<^verbatim>\<open>Warning\<close>, and never \<^verbatim>\<open>Conflict\<close>, in strict mode as in planning mode.\<close>

theorem allocate_fail_level_warning:
  assumes "allocateSpillover L items segs used rules family strict = Some (alloc, cs) \<or>
           allocateContiguous L items segs used rules family strict = Some (alloc, cs)"
    and "c \<in> set cs"
  shows "Kind c = ''ALLOCATE_FAIL'' \<and> Level c = Label statusWarning \<and> Level c = ''Warning'' \<and>
         Level c \<noteq> ''Conflict''"
proof -
  have "\<exists>s. c = allocateFail s family"
    using assms(1)
  proof
    assume "allocateSpillover L items segs used rules family strict = Some (alloc, cs)"
    from spillLoop_conflicts[OF this[unfolded allocateSpillover_def]] assms(2)
    show ?thesis by auto
  next
    assume "allocateContiguous L items segs used rules family strict = Some (alloc, cs)"
    then obtain pending where "cs = contigConflicts pending family strict"
      by (auto simp: allocateContiguous_def split: option.splits)
    with contigConflicts_subset[of pending family strict] assms(2) show ?thesis by auto
  qed
  then show ?thesis by (auto simp: allocateFail_fields)
qed


theorem allocate_fail_level_warning_witness:
  "allocateSpillover (tableLib []) [] [mkSeg 1 ''A'' ''X'' 10 ''users'' None (Some 24) None False] []
     defaultProjectRules ''ipv4'' True
   = Some (Map.empty, [allocateFail (mkSeg 1 ''A'' ''X'' 10 ''users'' None (Some 24) None False) ''ipv4''])
   \<and> Kind (allocateFail (mkSeg 1 ''A'' ''X'' 10 ''users'' None (Some 24) None False) ''ipv4'') = ''ALLOCATE_FAIL''
   \<and> Level (allocateFail (mkSeg 1 ''A'' ''X'' 10 ''users'' None (Some 24) None False) ''ipv4'') = ''Warning''
   \<and> Level (allocateFail (mkSeg 1 ''A'' ''X'' 10 ''users'' None (Some 24) None False) ''ipv4'') \<noteq> ''Conflict''"
proof -
  let ?s = "mkSeg 1 ''A'' ''X'' 10 ''users'' None (Some 24) None False"
  have run: "allocateSpillover (tableLib []) [] [?s] [] defaultProjectRules ''ipv4'' True
      = Some (Map.empty, [allocateFail ?s ''ipv4''])"
    by (simp add: eval_defs)
  have mem: "allocateFail ?s ''ipv4'' \<in> set [allocateFail ?s ''ipv4'']" by simp
  from allocate_fail_level_warning[OF disjI1[OF run] mem] run show ?thesis by simp
qed

text \<open>C1 (the code departs from it). A pool \<^verbatim>\<open>128.0.0.0/2\<close> and one segment asking for
  a \<^verbatim>\<open>/1\<close>: in \<open>allocateInPoolIPv4\<close> the sum \<^verbatim>\<open>cur+step\<close> wraps to 0, the loop
  condition holds, and the allocator returns \<^verbatim>\<open>128.0.0.0/1\<close>, which is not within the
  pool.\<close>

theorem allocateSpillover_leaves_pool:
  "allocateSpillover (tableLib []) [mkItem ''128.0.0.0/2'' (ip4 128 0 0 0 2)]
     [mkSeg 1 ''A'' ''X'' 10 ''big'' None (Some 1) None False] [] defaultProjectRules ''ipv4'' True
   = Some ([1 \<mapsto> ip4 128 0 0 0 1], []) \<and>
   allocateContiguous (tableLib []) [mkItem ''128.0.0.0/2'' (ip4 128 0 0 0 2)]
     [mkSeg 1 ''A'' ''X'' 10 ''big'' None (Some 1) None False] [] defaultProjectRules ''ipv4'' True
   = Some ([1 \<mapsto> ip4 128 0 0 0 1], []) \<and>
   validPrefix (ip4 128 0 0 0 2) \<and>
   \<not> prefixWithin (ip4 128 0 0 0 2) (ip4 128 0 0 0 1)"
  by (simp add: eval_defs allocateContiguous_def contigConflicts_def validPrefix_def
      prefixWithin_def prefixLastAddr_def addrToBig_def prefixSize_def addrBitLen_def bigToAddr_def)


lemma spillLoop_Nil_strict:
  "allocateSpillover L items [] used rules family strict = Some (Map.empty, [])"
  by (simp add: allocateSpillover_def)

lemma spillA: "allocateSpillover libA
       [mkItem ''10.0.0.0/29'' (ip4 10 0 0 0 29)] segsA [] defaultProjectRules ''ipv4'' True
       = Some ([1 \<mapsto> ip4 10 0 0 0 30],
          [allocateFail (mkSeg 2 ''A'' ''X'' 11 ''b'' None (Some 29) None False) ''ipv4''])"
  by (simp add: eval_defs segsA_def)

lemma itemsA: "poolItemsForFamily libA [mkPool ''10.0.0.0/29''] ''ipv4''
   = [mkItem ''10.0.0.0/29'' (ip4 10 0 0 0 29)]"
  by (simp add: poolItemsForFamily_def List.map_filter_simps poolItemOf_def normalizePoolFamily_def tableLib_def
    mkPool_def mkItem_def poolTierValue_def ip4_def libA_def)

lemma candsA: "allocCandidates segsA ''ipv4'' = segsA"
  by (simp add: allocCandidates_def desiredPrefixByFamily_def desiredPrefix_def mkSeg_def segsA_def)

lemma sortedA: "sort_key (\<lambda>s. desiredPrefixByFamily s ''ipv4'') segsA =
       [mkSeg 2 ''A'' ''X'' 11 ''b'' None (Some 29) None False, mkSeg 1 ''A'' ''X'' 10 ''a'' None (Some 30) None False,
        mkSeg 3 ''A'' ''X'' 12 ''c'' None (Some 30) None False]"
  by (simp add: desiredPrefixByFamily_def desiredPrefix_def mkSeg_def segsA_def)

lemma lockedA: "lockedUsed libA segsA ''ipv4'' = []"
  by (simp add: lockedUsed_def List.map_filter_simps mkSeg_def segsA_def)

lemma stratA: "runStrategy libA [mkItem ''10.0.0.0/29'' (ip4 10 0 0 0 29)]
    [mkSeg 2 ''A'' ''X'' 11 ''b'' None (Some 29) None False, mkSeg 1 ''A'' ''X'' 10 ''a'' None (Some 30) None False,
        mkSeg 3 ''A'' ''X'' 12 ''c'' None (Some 30) None False] [] defaultProjectRules ''ipv4'' True
    = Some ([2 \<mapsto> ip4 10 0 0 0 29], [allocateFail (mkSeg 1 ''A'' ''X'' 10 ''a'' None (Some 30) None False) ''ipv4''])"
  by (simp add: runStrategy_def eval_defs)

lemma segsA_ne: "segsA \<noteq> []" by (simp add: segsA_def)

lemma famA: "allocateFamily libA logExec id [] 1 segsA [mkPool ''10.0.0.0/29''] []
        defaultProjectRules ''ipv4''
     = Some (Some (Detail (allocateFail (mkSeg 1 ''A'' ''X'' 10 ''a'' None (Some 30) None False) ''ipv4'')), [])"
  by (simp add: allocateFamily_def Let_def itemsA candsA sortedA lockedA stratA segsA_ne)


text \<open>The strict runs of \<open>allocateSpillover\<close> that return: they return either no conflict
  or exactly one \<^verbatim>\<open>ALLOCATE_FAIL\<close>, for a segment \<open>s\<close> with a size request; the allocation map
  is then the one of the segments before \<open>s\<close> alone (no later segment is allocated). And
  when the strategy called by \<open>allocateFamily\<close> returns a conflict, \<open>allocateFamily\<close>
  returns the first conflict's detail as its error and the store as it was, whatever
  the store would answer: no statement is executed.\<close>

theorem strict_allocation_stops_and_writes_nothing:
  "(allocateSpillover L items segs used rules family True = Some (alloc, cs) \<longrightarrow>
      cs = [] \<or>
      (\<exists>pre s post. segs = pre @ s # post \<and> cs = [allocateFail s family] \<and>
         desiredPrefixByFamily s family \<noteq> 0 \<and>
         allocateSpillover L items pre used rules family True = Some (alloc, []) \<and>
         dom alloc \<subseteq> ID ` set pre)) \<and>
   (poolItemsForFamily L pools family \<noteq> [] \<and> allocCandidates segs' family \<noteq> [] \<and>
    runStrategy L (poolItemsForFamily L pools family)
      (sort_key (\<lambda>s. desiredPrefixByFamily s family) (allocCandidates segs' family))
      (lockedUsed L segs' family @ reserved) rules family True = Some (allocations, conflicts) \<and>
    conflicts \<noteq> [] \<longrightarrow>
      allocateFamily L exec order st siteID segs' pools reserved rules family
        = Some (Some (Detail (hd conflicts)), st))"
proof (intro conjI impI)
  assume run: "allocateSpillover L items segs used rules family True = Some (alloc, cs)"
  from spillLoop_strict[OF run[unfolded allocateSpillover_def]]
  show "cs = [] \<or>
      (\<exists>pre s post. segs = pre @ s # post \<and> cs = [allocateFail s family] \<and>
         desiredPrefixByFamily s family \<noteq> 0 \<and>
         allocateSpillover L items pre used rules family True = Some (alloc, []) \<and>
         dom alloc \<subseteq> ID ` set pre)"
  proof
    assume "cs = []" then show ?thesis by simp
  next
    assume "\<exists>pre s post. segs = pre @ s # post \<and> cs = [] @ [allocateFail s family] \<and>
      desiredPrefixByFamily s family \<noteq> 0 \<and>
      spillLoop L items rules family True pre used Map.empty [] = Some (alloc, [])"
    then obtain pre s post where h: "segs = pre @ s # post" "cs = [allocateFail s family]"
      "desiredPrefixByFamily s family \<noteq> 0"
      "spillLoop L items rules family True pre used Map.empty [] = Some (alloc, [])" by auto
    from spillLoop_dom[OF h(4)] have "dom alloc \<subseteq> ID ` set pre" by simp
    with h show ?thesis unfolding allocateSpillover_def by blast
  qed
next
  assume "poolItemsForFamily L pools family \<noteq> [] \<and> allocCandidates segs' family \<noteq> [] \<and>
    runStrategy L (poolItemsForFamily L pools family)
      (sort_key (\<lambda>s. desiredPrefixByFamily s family) (allocCandidates segs' family))
      (lockedUsed L segs' family @ reserved) rules family True = Some (allocations, conflicts) \<and>
    conflicts \<noteq> []"
  then show "allocateFamily L exec order st siteID segs' pools reserved rules family
        = Some (Some (Detail (hd conflicts)), st)"
    by (simp add: allocateFamily_def Let_def)
qed



theorem strict_allocation_stops_and_writes_nothing_witness:
  "allocateSpillover libA [mkItem ''10.0.0.0/29'' (ip4 10 0 0 0 29)] segsA [] defaultProjectRules ''ipv4'' True
     = Some ([1 \<mapsto> ip4 10 0 0 0 30],
             [allocateFail (mkSeg 2 ''A'' ''X'' 11 ''b'' None (Some 29) None False) ''ipv4'']) \<and>
   (\<exists>pre s post. segsA = pre @ s # post \<and>
      [allocateFail (mkSeg 2 ''A'' ''X'' 11 ''b'' None (Some 29) None False) ''ipv4'']
        = [allocateFail s ''ipv4''] \<and>
      allocateSpillover libA [mkItem ''10.0.0.0/29'' (ip4 10 0 0 0 29)] pre [] defaultProjectRules ''ipv4'' True
        = Some ([1 \<mapsto> ip4 10 0 0 0 30], []) \<and>
      dom [(1::int) \<mapsto> ip4 10 0 0 0 30] \<subseteq> ID ` set pre) \<and>
   runStrategy libA (poolItemsForFamily libA [mkPool ''10.0.0.0/29''] ''ipv4'')
      (sort_key (\<lambda>s. desiredPrefixByFamily s ''ipv4'') (allocCandidates segsA ''ipv4''))
      (lockedUsed libA segsA ''ipv4'' @ []) defaultProjectRules ''ipv4'' True
     = Some ([2 \<mapsto> ip4 10 0 0 0 29],
             [allocateFail (mkSeg 1 ''A'' ''X'' 10 ''a'' None (Some 30) None False) ''ipv4'']) \<and>
   allocateFamily libA logExec id [] 1 segsA [mkPool ''10.0.0.0/29''] [] defaultProjectRules ''ipv4''
     = Some (Some (Detail (allocateFail (mkSeg 1 ''A'' ''X'' 10 ''a'' None (Some 30) None False) ''ipv4'')), [])"
proof -
  note T = strict_allocation_stops_and_writes_nothing
  let ?c2 = "allocateFail (mkSeg 2 ''A'' ''X'' 11 ''b'' None (Some 29) None False) ''ipv4''"
  let ?c1 = "allocateFail (mkSeg 1 ''A'' ''X'' 10 ''a'' None (Some 30) None False) ''ipv4''"
  from T[THEN conjunct1, THEN mp, OF spillA]
  have part1: "\<exists>pre s post. segsA = pre @ s # post \<and> [?c2] = [allocateFail s ''ipv4''] \<and>
      allocateSpillover libA [mkItem ''10.0.0.0/29'' (ip4 10 0 0 0 29)] pre [] defaultProjectRules ''ipv4'' True
        = Some ([1 \<mapsto> ip4 10 0 0 0 30], []) \<and>
      dom [(1::int) \<mapsto> ip4 10 0 0 0 30] \<subseteq> ID ` set pre"
    by blast
  have run: "runStrategy libA (poolItemsForFamily libA [mkPool ''10.0.0.0/29''] ''ipv4'')
      (sort_key (\<lambda>s. desiredPrefixByFamily s ''ipv4'') (allocCandidates segsA ''ipv4''))
      (lockedUsed libA segsA ''ipv4'' @ []) defaultProjectRules ''ipv4'' True
     = Some ([2 \<mapsto> ip4 10 0 0 0 29], [?c1])"
    by (simp add: itemsA candsA sortedA lockedA stratA)
  have hyp: "poolItemsForFamily libA [mkPool ''10.0.0.0/29''] ''ipv4'' \<noteq> [] \<and>
      allocCandidates segsA ''ipv4'' \<noteq> [] \<and>
      runStrategy libA (poolItemsForFamily libA [mkPool ''10.0.0.0/29''] ''ipv4'')
        (sort_key (\<lambda>s. desiredPrefixByFamily s ''ipv4'') (allocCandidates segsA ''ipv4''))
        (lockedUsed libA segsA ''ipv4'' @ []) defaultProjectRules ''ipv4'' True
       = Some ([2 \<mapsto> ip4 10 0 0 0 29], [?c1]) \<and>
      [?c1] \<noteq> []"
    using run by (simp add: itemsA candsA segsA_ne)
  have part2: "allocateFamily libA logExec id [] 1 segsA [mkPool ''10.0.0.0/29''] [] defaultProjectRules ''ipv4''
     = Some (Some (Detail (hd [?c1])), [])"
    by (rule T[THEN conjunct2, THEN mp, OF hyp])
  from spillA part1 run part2 show ?thesis by simp
qed


section \<open>Properties: locked segments\<close>


lemma planLocked_Cons:
  "\<exists>U P C. planLocked L family (a # segs) used plan cs = planLocked L family segs U P C \<and>
     (Locked a \<longrightarrow> (\<forall>cidr p. segmentCIDRByFamily a family = Some cidr \<longrightarrow>
         ParsePrefix L cidr = Some p \<longrightarrow> P (ID a) = Some p)) \<and>
     (\<forall>i. i \<noteq> ID a \<longrightarrow> P i = plan i)"
  apply (simp split: option.splits)
  apply (intro conjI impI allI)
  apply (rule exI, rule exI, rule conjI, rule exI, rule refl, simp)+
  done

lemma planLocked_other:
  "planLocked L family segs used plan cs = (used', plan', cs') \<Longrightarrow>
   \<forall>t\<in>set segs. ID t \<noteq> i \<Longrightarrow> plan' i = plan i"
proof (induction segs arbitrary: used plan cs)
  case Nil
  then show ?case by simp
next
  case (Cons a segs)
  from planLocked_Cons[of L family a segs used plan cs] obtain U P C where
    rec: "planLocked L family (a # segs) used plan cs = planLocked L family segs U P C"
    and oth: "\<forall>j. j \<noteq> ID a \<longrightarrow> P j = plan j" by blast
  from Cons.prems(1) rec have "planLocked L family segs U P C = (used', plan', cs')" by simp
  from Cons.IH[OF this] Cons.prems(2) have "plan' i = P i" by simp
  with oth Cons.prems(2) show ?case by simp
qed

lemma planLocked_lookup:
  "planLocked L family segs used plan cs = (used', plan', cs') \<Longrightarrow>
   s \<in> set segs \<Longrightarrow> Locked s \<Longrightarrow> segmentCIDRByFamily s family = Some cidr \<Longrightarrow>
   ParsePrefix L cidr = Some p \<Longrightarrow> \<forall>t\<in>set segs. ID t = ID s \<longrightarrow> t = s \<Longrightarrow>
   plan' (ID s) = Some p"
proof (induction segs arbitrary: used plan cs)
  case Nil
  then show ?case by simp
next
  case (Cons a segs)
  from planLocked_Cons[of L family a segs used plan cs] obtain U P C where
    rec: "planLocked L family (a # segs) used plan cs = planLocked L family segs U P C"
    and upd: "Locked a \<longrightarrow> (\<forall>cidr p. segmentCIDRByFamily a family = Some cidr \<longrightarrow>
         ParsePrefix L cidr = Some p \<longrightarrow> P (ID a) = Some p)" by blast
  from Cons.prems(1) rec have run: "planLocked L family segs U P C = (used', plan', cs')" by simp
  have uniq: "\<forall>t\<in>set segs. ID t = ID s \<longrightarrow> t = s" using Cons.prems(6) by simp
  show ?case
  proof (cases "s \<in> set segs")
    case True
    from Cons.IH[OF run True Cons.prems(3,4,5) uniq] show ?thesis .
  next
    case False
    with Cons.prems(2) have as: "a = s" by simp
    have no: "\<forall>t\<in>set segs. ID t \<noteq> ID s" using False uniq by blast
    from planLocked_other[OF run no] have "plan' (ID s) = P (ID s)" .
    with upd as Cons.prems(3,4,5) show ?thesis by simp
  qed
qed

lemma planCandidates_Cons:
  "\<exists>N C. planCandidates family (s # segs) cands cs = planCandidates family segs N C \<and>
     set N \<subseteq> set cands \<union> {t. t = s \<and> \<not> Locked t}"
  apply simp
  apply (intro conjI impI allI)
  apply (rule exI, rule conjI, rule exI, rule refl, auto)+
  done

lemma planCandidates_set:
  "planCandidates family segs cands cs = (cands', cs') \<Longrightarrow>
   set cands' \<subseteq> set cands \<union> {t \<in> set segs. \<not> Locked t}"
proof (induction segs arbitrary: cands cs)
  case Nil
  then show ?case by simp
next
  case (Cons s segs)
  from planCandidates_Cons[of family s segs cands cs] obtain N C where
    rec: "planCandidates family (s # segs) cands cs = planCandidates family segs N C"
    and sub: "set N \<subseteq> set cands \<union> {t. t = s \<and> \<not> Locked t}" by blast
  from Cons.prems rec have "planCandidates family segs N C = (cands', cs')" by simp
  from Cons.IH[OF this] sub show ?case by auto
qed

lemma contigInner_Cons_cases:
  assumes "contigInner L rules family pool (s # segs) used alloc np = Some r"
  obtains (skip) "contigInner L rules family pool segs used alloc np = Some r"
  | (pend) "contigInner L rules family pool segs used alloc (np @ [s]) = Some r"
  | (place) p where "contigInner L rules family pool segs (used @ [p]) (alloc(ID s \<mapsto> p)) np = Some r"
  using assms by (auto split: if_splits option.splits)

lemma contigInner_dom:
  "contigInner L rules family pool segs used alloc np = Some (used', alloc', np') \<Longrightarrow>
   dom alloc' \<subseteq> dom alloc \<union> ID ` set segs \<and> set np' \<subseteq> set np \<union> set segs"
proof (induction segs arbitrary: used alloc np)
  case Nil
  then show ?case by auto
next
  case (Cons s segs)
  from Cons.prems show ?case
  proof (cases rule: contigInner_Cons_cases)
    case skip
    from Cons.IH[OF this] show ?thesis by auto
  next
    case pend
    from Cons.IH[OF this] show ?thesis by auto
  next
    case (place p)
    from Cons.IH[OF this] show ?thesis by auto
  qed
qed

lemma contigOuter_dom:
  "contigOuter L rules family items pending used alloc = Some (alloc', pending') \<Longrightarrow>
   dom alloc' \<subseteq> dom alloc \<union> ID ` set pending"
proof (induction items arbitrary: pending used alloc)
  case Nil
  then show ?case by auto
next
  case (Cons pool rest)
  show ?case
  proof (cases "pending = []")
    case True
    with Cons.prems show ?thesis by auto
  next
    case False
    with Cons.prems obtain u a np where
      inner: "contigInner L rules family pool pending used alloc [] = Some (u, a, np)"
      and outer: "contigOuter L rules family rest np u a = Some (alloc', pending')"
      by (auto split: option.splits)
    from contigInner_dom[OF inner] have a: "dom a \<subseteq> dom alloc \<union> ID ` set pending"
      and n: "set np \<subseteq> set pending" by auto
    from n have "ID ` set np \<subseteq> ID ` set pending" by (rule image_mono)
    with Cons.IH[OF outer] a show ?thesis by blast
  qed
qed

lemma runStrategy_dom:
  assumes "runStrategy L items cands used rules family strict = Some (alloc, cs)"
  shows "dom alloc \<subseteq> ID ` set cands"
proof (cases "PoolStrategy rules = PoolStrategyContig")
  case True
  with assms obtain pending where
    "contigOuter L rules family items cands used Map.empty = Some (alloc, pending)"
    by (auto simp: runStrategy_def allocateContiguous_def split: option.splits)
  from contigOuter_dom[OF this] show ?thesis by simp
next
  case False
  with assms have "spillLoop L items rules family strict cands used Map.empty [] = Some (alloc, cs)"
    by (simp add: runStrategy_def allocateSpillover_def)
  from spillLoop_dom[OF this] show ?thesis by simp
qed


lemma updateLoop_log:
  "updateLoop L logExec family allocations ids st = (e, st') \<Longrightarrow>
   set st' \<subseteq> set st \<union> {q. \<exists>i\<in>set ids. \<exists>c. q = SetCIDR i c \<or> q = SetCIDRV6 i c}"
proof (induction ids arbitrary: st)
  case Nil
  then show ?case by simp
next
  case (Cons i ids)
  show ?case
  proof (cases "allocations i")
    case None
    with Cons.prems have "updateLoop L logExec family allocations ids st = (e, st')" by simp
    from Cons.IH[OF this] show ?thesis by auto
  next
    case (Some p)
    let ?q = "if family = ''ipv6'' then SetCIDRV6 i (PrefixString L p) else SetCIDR i (PrefixString L p)"
    have "updateSegmentCIDRByFamily logExec st i family (PrefixString L p) = (None, st @ [?q])"
      by (simp add: updateSegmentCIDRByFamily_def logExec_def)
    with Some Cons.prems have "updateLoop L logExec family allocations ids (st @ [?q]) = (e, st')"
      by simp
    from Cons.IH[OF this] show ?thesis by (auto split: if_splits)
  qed
qed

lemma allocCandidates_unlocked: "set (allocCandidates segs family) \<subseteq> {t \<in> set segs. \<not> Locked t}"
  by (auto simp: allocCandidates_def)

lemmas segB_defs = mgmtB_def usersB_def voiceB_def mkSeg_def

lemma itemsB: "poolItemsForFamily libB [mkPool ''10.30.0.0/24''] ''ipv4''
   = [mkItem ''10.30.0.0/24'' (ip4 10 30 0 0 24)]"
  by (simp add: poolItemsForFamily_def List.map_filter_simps poolItemOf_def normalizePoolFamily_def
      tableLib_def mkPool_def mkItem_def poolTierValue_def ip4_def libB_def)

lemma wantB: "desiredPrefixByFamily usersB ''ipv4'' = 26" "desiredPrefixByFamily voiceB ''ipv4'' = 26"
  "desiredPrefixByFamily mgmtB ''ipv4'' = 26"
  by (simp_all add: desiredPrefixByFamily_def desiredPrefix_def segB_defs hostsToPrefixIPv4_def
      wrap64_def hostsLoop.simps)

lemma lockedB: "Locked mgmtB" "\<not> Locked usersB" "\<not> Locked voiceB"
  "segmentCIDRByFamily mgmtB ''ipv4'' = Some ''10.30.0.64/26''"
  "ID mgmtB = 1" "ID usersB = 2" "ID voiceB = 3"
  by (simp_all add: segB_defs segmentCIDRByFamily_def)

lemma parseB: "ParsePrefix libB ''10.30.0.64/26'' = Some (ip4 10 30 0 64 26)"
  by (simp add: libB_def tableLib_def)

lemma printB: "PrefixString libB (ip4 10 30 0 64 26) = ''10.30.0.64/26''"
  "PrefixString libB (ip4 10 30 0 128 26) = ''10.30.0.128/26''"
  "PrefixString libB (ip4 10 30 0 192 26) = ''10.30.0.192/26''"
  by (simp_all add: libB_def tableLib_def ip4_def)

lemma planLockedB: "planLocked libB ''ipv4'' segsB [] Map.empty []
   = ([ip4 10 30 0 64 26], [1 \<mapsto> ip4 10 30 0 64 26], [])"
  by (simp add: segsB_def lockedB parseB)

lemma planCandidatesB: "planCandidates ''ipv4'' segsB [] [] = ([usersB, voiceB], [])"
  by (simp add: segsB_def lockedB wantB)

lemma sortedB: "sort_key (\<lambda>s. desiredPrefixByFamily s ''ipv4'') [usersB, voiceB] = [usersB, voiceB]"
  by (simp add: wantB)

lemma inPoolB:
  "allocateInPool (ip4 10 30 0 0 24) 26 [ip4 10 30 0 64 26, ip4 10 30 0 0 28] = Some (Some (ip4 10 30 0 128 26))"
  "allocateInPool (ip4 10 30 0 0 24) 26 [ip4 10 30 0 64 26, ip4 10 30 0 0 28, ip4 10 30 0 128 26]
     = Some (Some (ip4 10 30 0 192 26))"
  by (simp_all add: allocateInPool_def allocateInPoolIPv4_def allocLoopIPv4.simps u32_def ipv4ToU32_def
    Masked_def hostBits_def u32ToIPv4_def Contains_def overlapsAny_def prefixesOverlap_def ip4_def)

lemma stratB: "runStrategy libB [mkItem ''10.30.0.0/24'' (ip4 10 30 0 0 24)] [usersB, voiceB]
     [ip4 10 30 0 64 26, ip4 10 30 0 0 28] defaultProjectRules ''ipv4'' strict
   = Some ([2 \<mapsto> ip4 10 30 0 128 26, 3 \<mapsto> ip4 10 30 0 192 26], [])"
  by (simp add: runStrategy_def allocateSpillover_def spillPoolList_def wantB lockedB inPoolB
      defaultProjectRules_def PoolStrategySpillover_def PoolStrategyTiered_def PoolStrategyContig_def
      mkItem_def)

lemma planFamilyB: "planAllocateFamily libB segsB [mkPool ''10.30.0.0/24''] [ip4 10 30 0 0 28]
     defaultProjectRules ''ipv4'' = Some (planB, [])"
  by (simp add: planAllocateFamily_def Let_def itemsB planLockedB planCandidatesB wantB stratB planB_def)

lemma applyB: "map CIDR (applyPlan libB segsB planB other)
   = [Some ''10.30.0.64/26'', Some ''10.30.0.128/26'', Some ''10.30.0.192/26'']"
  by (simp add: applyPlan_def segsB_def lockedB planB_def printB)

lemma familyB: "allocateFamily libB logExec id [] 1 segsB [mkPool ''10.30.0.0/24''] [ip4 10 30 0 0 28]
     defaultProjectRules ''ipv4''
   = Some (None, [ClearUnlockedCIDR 1, SetCIDR 2 ''10.30.0.128/26'', SetCIDR 3 ''10.30.0.192/26''])"
proof -
  have c: "allocCandidates segsB ''ipv4'' = [usersB, voiceB]"
    by (simp add: allocCandidates_def segsB_def lockedB wantB)
  have l: "lockedUsed libB segsB ''ipv4'' = [ip4 10 30 0 64 26]"
    by (simp add: lockedUsed_def List.map_filter_simps segsB_def lockedB parseB)
  show ?thesis
    by (simp add: allocateFamily_def Let_def itemsB c l wantB stratB lockedB
        clearCIDRsByFamily_def updateSegmentCIDRByFamily_def logExec_def printB)
qed


text \<open>Where the site has a pool of the family. Let \<open>s\<close> be a locked segment of \<open>segs\<close> whose
  CIDR for the family parses to \<open>p\<close>, and let no other segment of \<open>segs\<close> carry its id.
  When \<open>planAllocateFamily\<close> returns, the plan maps the id of \<open>s\<close> to \<open>p\<close>, and the copy of
  \<open>s\<close> that \<open>applyPlan\<close> makes carries the printed form of \<open>p\<close>. In persistent allocation
  (the store logging what it executes, the runtime walking the allocation map in any
  order) no executed statement sets the CIDR of \<open>s\<close>; the clearing statements are
  restricted to unlocked segments by their text.\<close>

theorem locked_cidr_kept:
  assumes "s \<in> set segs" and "Locked s"
    and "segmentCIDRByFamily s family = Some cidr" and "ParsePrefix L cidr = Some p"
    and "\<forall>t\<in>set segs. ID t = ID s \<longrightarrow> t = s"
  shows "(poolItemsForFamily L pools family \<noteq> [] \<and>
          planAllocateFamily L segs pools reserved rules family = Some (plan, cs) \<longrightarrow>
            plan (ID s) = Some p \<and>
            (\<forall>s'\<in>set (applyPlan L segs (if family = ''ipv6'' then other else plan)
                                       (if family = ''ipv6'' then plan else other)).
                ID s' = ID s \<longrightarrow> segmentCIDRByFamily s' family = Some (PrefixString L p))) \<and>
         ((\<forall>xs. set (order xs) \<subseteq> set xs) \<and>
          allocateFamily L logExec order [] siteID segs pools reserved rules family = Some (err, log) \<longrightarrow>
            (\<forall>q\<in>set log. \<forall>c. q \<noteq> SetCIDR (ID s) c \<and> q \<noteq> SetCIDRV6 (ID s) c))"
proof (intro conjI impI)
  assume h: "poolItemsForFamily L pools family \<noteq> [] \<and>
          planAllocateFamily L segs pools reserved rules family = Some (plan, cs)"
  obtain used0 plan0 c0 where pl: "planLocked L family segs [] Map.empty [] = (used0, plan0, c0)"
    by (metis prod_cases3)
  obtain cand0 cs0 where pc: "planCandidates family segs [] c0 = (cand0, cs0)"
    by (metis surj_pair)
  from h pl pc obtain alloc cf where
    run: "runStrategy L (poolItemsForFamily L pools family)
            (sort_key (\<lambda>s. desiredPrefixByFamily s family) cand0) (used0 @ reserved) rules family False
          = Some (alloc, cf)"
    and plan: "plan = plan0 ++ alloc"
    by (auto simp: planAllocateFamily_def Let_def split: option.splits)
  have p0: "plan0 (ID s) = Some p"
    by (rule planLocked_lookup[OF pl assms(1,2,3,4,5)])
  have "ID s \<notin> dom alloc"
  proof
    assume "ID s \<in> dom alloc"
    with runStrategy_dom[OF run] obtain t where t: "t \<in> set cand0" "ID t = ID s" by auto
    with planCandidates_set[OF pc] have "t \<in> set segs" "\<not> Locked t" by auto
    with assms(2,5) t(2) show False by auto
  qed
  then have "alloc (ID s) = None" by auto
  with p0 plan show a: "plan (ID s) = Some p" by (simp add: map_add_def)
  show "\<forall>s'\<in>set (applyPlan L segs (if family = ''ipv6'' then other else plan)
                                       (if family = ''ipv6'' then plan else other)).
                ID s' = ID s \<longrightarrow> segmentCIDRByFamily s' family = Some (PrefixString L p)"
    using a by (auto simp: applyPlan_def segmentCIDRByFamily_def)
next
  assume h: "(\<forall>xs. set (order xs) \<subseteq> set xs) \<and>
          allocateFamily L logExec order [] siteID segs pools reserved rules family = Some (err, log)"
  let ?cands = "sort_key (\<lambda>s. desiredPrefixByFamily s family) (allocCandidates segs family)"
  have nocand: "ID s \<notin> ID ` set ?cands"
  proof
    assume "ID s \<in> ID ` set ?cands"
    then obtain t where "t \<in> set (allocCandidates segs family)" "ID t = ID s" by auto
    with allocCandidates_unlocked[of segs family] have "t \<in> set segs" "\<not> Locked t" "ID t = ID s" by auto
    with assms(2,5) show False by auto
  qed
  show "\<forall>q\<in>set log. \<forall>c. q \<noteq> SetCIDR (ID s) c \<and> q \<noteq> SetCIDRV6 (ID s) c"
  proof (cases "log = []")
    case True
    then show ?thesis by simp
  next
    case False
    have clr: "clearCIDRsByFamily logExec [] siteID family
        = (None, [if family = ''ipv6'' then ClearUnlockedCIDRV6 siteID else ClearUnlockedCIDR siteID])"
      by (simp add: clearCIDRsByFamily_def logExec_def)
    from h False obtain allocations where
      upd: "updateLoop L logExec family allocations
              (order (filter (\<lambda>i. allocations i \<noteq> None) (remdups (map ID ?cands))))
              [if family = ''ipv6'' then ClearUnlockedCIDRV6 siteID else ClearUnlockedCIDR siteID]
            = (err, log)"
      by (auto simp: allocateFamily_def Let_def clr split: option.splits if_splits)
    from h have "set (order (filter (\<lambda>i. allocations i \<noteq> None) (remdups (map ID ?cands))))
        \<subseteq> set (filter (\<lambda>i. allocations i \<noteq> None) (remdups (map ID ?cands)))" by blast
    then have ids: "set (order (filter (\<lambda>i. allocations i \<noteq> None) (remdups (map ID ?cands))))
        \<subseteq> ID ` set ?cands" by auto
    from updateLoop_log[OF upd] ids nocand show ?thesis by (auto split: if_splits)
  qed
qed



theorem locked_cidr_kept_witness:
  "mgmtB \<in> set segsB \<and> Locked mgmtB \<and>
   segmentCIDRByFamily mgmtB ''ipv4'' = Some ''10.30.0.64/26'' \<and>
   ParsePrefix libB ''10.30.0.64/26'' = Some (ip4 10 30 0 64 26) \<and>
   distinct (map ID segsB) \<and>
   poolItemsForFamily libB [mkPool ''10.30.0.0/24''] ''ipv4'' \<noteq> [] \<and>
   planAllocateFamily libB segsB [mkPool ''10.30.0.0/24''] [ip4 10 30 0 0 28] defaultProjectRules ''ipv4''
     = Some (planB, []) \<and>
   planB (ID mgmtB) = Some (ip4 10 30 0 64 26) \<and>
   map CIDR (applyPlan libB segsB planB Map.empty)
     = [Some ''10.30.0.64/26'', Some ''10.30.0.128/26'', Some ''10.30.0.192/26''] \<and>
   allocateFamily libB logExec id [] 1 segsB [mkPool ''10.30.0.0/24''] [ip4 10 30 0 0 28]
     defaultProjectRules ''ipv4''
     = Some (None, [ClearUnlockedCIDR 1, SetCIDR 2 ''10.30.0.128/26'', SetCIDR 3 ''10.30.0.192/26''])"
proof -
  have mem: "mgmtB \<in> set segsB" by (simp add: segsB_def)
  have u: "\<forall>t\<in>set segsB. ID t = ID mgmtB \<longrightarrow> t = mgmtB" by (simp add: segsB_def lockedB)
  have d: "distinct (map ID segsB)" by (simp add: segsB_def lockedB)
  have ne: "poolItemsForFamily libB [mkPool ''10.30.0.0/24''] ''ipv4'' \<noteq> []" by (simp add: itemsB)
  note T = locked_cidr_kept[OF mem lockedB(1) lockedB(4) parseB u]
  from T[THEN conjunct1, THEN mp, OF conjI[OF ne planFamilyB]]
  have "planB (ID mgmtB) = Some (ip4 10 30 0 64 26)" by simp
  with mem d ne lockedB(1,4) parseB planFamilyB applyB familyB show ?thesis by simp
qed

text \<open>Without a pool of the family the guard at the head of \<open>planAllocateFamily\<close>
  returns the empty plan, whatever the segments are, and \<open>applyPlan\<close> of an empty plan
  leaves no CIDR in any copy; \<open>allocateFamily\<close> returns at its own guard and executes
  nothing.\<close>

lemma planAllocateFamily_without_pools:
  "poolItemsForFamily L pools family = [] \<Longrightarrow>
   \<exists>cs. planAllocateFamily L segs pools reserved rules family = Some (Map.empty, cs)"
  by (simp add: planAllocateFamily_def)

lemma applyPlan_empty_clears:
  "s' \<in> set (applyPlan L segs Map.empty Map.empty) \<Longrightarrow> CIDR s' = None \<and> CIDRV6 s' = None"
  by (auto simp: applyPlan_def)

lemma allocateFamily_without_pools:
  "poolItemsForFamily L pools family = [] \<Longrightarrow>
   allocateFamily L exec order st siteID segs pools reserved rules family = Some (None, st)"
  by (simp add: allocateFamily_def)

text \<open>C2 (the code departs from it). A site without pools and three segments, the first
  one locked with the CIDR \<^verbatim>\<open>10.30.0.64/26\<close>, which parses. \<open>planAllocateFamily\<close> returns the
  empty plan with \<^verbatim>\<open>POOL_MISSING\<close>: the plan does not map the locked segment's id to its
  prefix, and the copy that \<open>applyPlan\<close> makes of the locked segment carries no CIDR.
  Persistent allocation of the same input returns without executing a statement.\<close>

theorem locked_cidr_dropped_without_pools:
  "Locked mgmtB \<and> segmentCIDRByFamily mgmtB ''ipv4'' = Some ''10.30.0.64/26'' \<and>
   ParsePrefix libB ''10.30.0.64/26'' = Some (ip4 10 30 0 64 26) \<and>
   planAllocateFamily libB segsB [] [ip4 10 30 0 0 28] defaultProjectRules ''ipv4''
     = Some (Map.empty, [poolMissing ''ipv4'']) \<and>
   map CIDR (applyPlan libB segsB Map.empty Map.empty) = [None, None, None] \<and>
   allocateFamily libB logExec id [] 1 segsB [] [ip4 10 30 0 0 28] defaultProjectRules ''ipv4''
     = Some (None, [])"
proof -
  have "planAllocateFamily libB segsB [] [ip4 10 30 0 0 28] defaultProjectRules ''ipv4''
     = Some (Map.empty, [poolMissing ''ipv4''])"
    by (simp add: planAllocateFamily_def poolItemsForFamily_def List.map_filter_simps
        segmentsNeedFamily_def segsB_def segB_defs)
  moreover have "map CIDR (applyPlan libB segsB Map.empty Map.empty) = [None, None, None]"
    by (simp add: applyPlan_def segsB_def)
  moreover have "allocateFamily libB logExec id [] 1 segsB [] [ip4 10 30 0 0 28]
      defaultProjectRules ''ipv4'' = Some (None, [])"
    by (simp add: allocateFamily_def poolItemsForFamily_def List.map_filter_simps)
  ultimately show ?thesis by (simp add: lockedB parseB)
qed

section \<open>Strict mode: the runs that return, and one that does not\<close>

lemma dom_upd_sub: "dom (m(k \<mapsto> v)) \<subseteq> D \<Longrightarrow> dom m \<subseteq> D \<and> k \<in> D"
  by (simp add: subset_insertI2)

lemma spillLoop_placed:
  "spillLoop L items rules family strict segs used alloc cs = Some (a, cs') \<Longrightarrow>
   dom alloc \<subseteq> dom a \<and> length cs \<le> length cs' \<and>
   (cs' = cs \<longrightarrow> (\<forall>s\<in>set segs. desiredPrefixByFamily s family \<noteq> 0 \<longrightarrow> ID s \<in> dom a))"
proof (induction segs arbitrary: used alloc cs)
  case Nil
  then show ?case by simp
next
  case (Cons s segs)
  show ?case
  proof (cases "desiredPrefixByFamily s family = 0")
    case True
    with Cons.prems have "spillLoop L items rules family strict segs used alloc cs = Some (a, cs')"
      by simp
    from Cons.IH[OF this] True show ?thesis by simp
  next
    case False
    show ?thesis
    proof (cases "firstFit (spillPoolList L items rules s) (desiredPrefixByFamily s family) used")
      case None
      with False Cons.prems show ?thesis by simp
    next
      case (Some r)
      show ?thesis
      proof (cases r)
        case None
        show ?thesis
        proof (cases strict)
          case True
          with False Some None Cons.prems show ?thesis by auto
        next
          case nonstrict: False
          with False Some None Cons.prems
          have "spillLoop L items rules family strict segs used alloc (cs @ [allocateFail s family])
                  = Some (a, cs')" by simp
          from Cons.IH[OF this] show ?thesis by auto
        qed
      next
        case (Some p)
        with False \<open>firstFit (spillPoolList L items rules s) (desiredPrefixByFamily s family) used = Some r\<close>
          Cons.prems
        have "spillLoop L items rules family strict segs (used @ [p]) (alloc(ID s \<mapsto> p)) cs
                = Some (a, cs')" by simp
        from Cons.IH[OF this] have d: "dom (alloc(ID s \<mapsto> p)) \<subseteq> dom a"
          and l: "length cs \<le> length cs'"
          and r: "cs' = cs \<longrightarrow> (\<forall>s\<in>set segs. desiredPrefixByFamily s family \<noteq> 0 \<longrightarrow> ID s \<in> dom a)"
          by blast+
        from dom_upd_sub[OF d] l r show ?thesis by simp
      qed
    qed
  qed
qed

lemma contigInner_Cons_placed:
  assumes "contigInner L rules family pool (s # segs) used alloc np = Some r"
  obtains (skip) "desiredPrefixByFamily s family = 0"
      "contigInner L rules family pool segs used alloc np = Some r"
  | (pend) "contigInner L rules family pool segs used alloc (np @ [s]) = Some r"
  | (place) p where "contigInner L rules family pool segs (used @ [p]) (alloc(ID s \<mapsto> p)) np = Some r"
  using assms by (auto split: if_splits option.splits)

lemma contigInner_placed:
  "contigInner L rules family pool segs used alloc np = Some (used', alloc', np') \<Longrightarrow>
   dom alloc \<subseteq> dom alloc' \<and> set np \<subseteq> set np' \<and>
   (\<forall>s\<in>set segs. desiredPrefixByFamily s family \<noteq> 0 \<longrightarrow> ID s \<in> dom alloc' \<or> s \<in> set np')"
proof (induction segs arbitrary: used alloc np)
  case Nil
  then show ?case by auto
next
  case (Cons s segs)
  from Cons.prems show ?case
  proof (cases rule: contigInner_Cons_placed)
    case skip
    from Cons.IH[OF skip(2)] skip(1) show ?thesis by auto
  next
    case pend
    from Cons.IH[OF this] show ?thesis by auto
  next
    case (place p)
    from Cons.IH[OF this] have d: "dom (alloc(ID s \<mapsto> p)) \<subseteq> dom alloc'"
      and n: "set np \<subseteq> set np'"
      and r: "\<forall>s\<in>set segs. desiredPrefixByFamily s family \<noteq> 0 \<longrightarrow> ID s \<in> dom alloc' \<or> s \<in> set np'"
      by blast+
    from dom_upd_sub[OF d] n r show ?thesis by simp
  qed
qed

lemma contigOuter_placed:
  "contigOuter L rules family items pending used alloc = Some (alloc', pending') \<Longrightarrow>
   dom alloc \<subseteq> dom alloc' \<and>
   (\<forall>s\<in>set pending. desiredPrefixByFamily s family \<noteq> 0 \<longrightarrow> ID s \<in> dom alloc' \<or> s \<in> set pending')"
proof (induction items arbitrary: pending used alloc)
  case Nil
  then show ?case by auto
next
  case (Cons pool rest)
  show ?case
  proof (cases "pending = []")
    case True
    with Cons.prems show ?thesis by auto
  next
    case False
    with Cons.prems obtain u a np where
      inner: "contigInner L rules family pool pending used alloc [] = Some (u, a, np)"
      and outer: "contigOuter L rules family rest np u a = Some (alloc', pending')"
      by (auto split: option.splits)
    from contigInner_placed[OF inner] have i1: "dom alloc \<subseteq> dom a"
      and i2: "\<forall>s\<in>set pending. desiredPrefixByFamily s family \<noteq> 0 \<longrightarrow> ID s \<in> dom a \<or> s \<in> set np"
      by auto
    from Cons.IH[OF outer] have o1: "dom a \<subseteq> dom alloc'"
      and o2: "\<forall>s\<in>set np. desiredPrefixByFamily s family \<noteq> 0 \<longrightarrow> ID s \<in> dom alloc' \<or> s \<in> set pending'"
      by auto
    from i1 o1 have "dom alloc \<subseteq> dom alloc'" by blast
    moreover from i2 o1 o2
    have "\<forall>s\<in>set pending. desiredPrefixByFamily s family \<noteq> 0 \<longrightarrow> ID s \<in> dom alloc' \<or> s \<in> set pending'"
      by blast
    ultimately show ?thesis by simp
  qed
qed

text \<open>In strict mode a strategy that returns no conflict has placed every segment that
  asks for a size: a segment that cannot be placed gives a conflict.\<close>

lemma runStrategy_strict_all_placed:
  assumes "runStrategy L items cands used rules family True = Some (alloc, [])"
  shows "\<forall>s\<in>set cands. desiredPrefixByFamily s family \<noteq> 0 \<longrightarrow> ID s \<in> dom alloc"
proof (cases "PoolStrategy rules = PoolStrategyContig")
  case True
  with assms obtain pending where
    o: "contigOuter L rules family items cands used Map.empty = Some (alloc, pending)"
    and c: "contigConflicts pending family True = []"
    by (auto simp: runStrategy_def allocateContiguous_def split: option.splits)
  from c have "pending = []" by (cases pending) (simp_all add: contigConflicts_def)
  with contigOuter_placed[OF o] show ?thesis by simp
next
  case False
  with assms have "spillLoop L items rules family True cands used Map.empty [] = Some (alloc, [])"
    by (simp add: runStrategy_def allocateSpillover_def)
  from spillLoop_placed[OF this] show ?thesis by simp
qed

text \<open>\<open>allocateFamily\<close> changes the store only after a run of the strategy that placed
  every candidate; with a candidate that was not placed it returns an error and the
  store as it was.\<close>

lemma allocateFamily_writes_only_complete:
  assumes run: "allocateFamily L exec order st siteID segs pools reserved rules family = Some (err, st')"
    and ch: "st' \<noteq> st \<or> err = None"
    and items: "poolItemsForFamily L pools family \<noteq> []"
    and cands: "allocCandidates segs family \<noteq> []"
  shows "\<exists>alloc. runStrategy L (poolItemsForFamily L pools family)
           (sort_key (\<lambda>s. desiredPrefixByFamily s family) (allocCandidates segs family))
           (lockedUsed L segs family @ reserved) rules family True = Some (alloc, []) \<and>
         (\<forall>s\<in>set (allocCandidates segs family). ID s \<in> dom alloc)"
proof -
  let ?cands = "sort_key (\<lambda>s. desiredPrefixByFamily s family) (allocCandidates segs family)"
  from run items cands obtain alloc cs where
    r: "runStrategy L (poolItemsForFamily L pools family) ?cands
          (lockedUsed L segs family @ reserved) rules family True = Some (alloc, cs)"
    by (auto simp: allocateFamily_def Let_def split: option.splits)
  have "cs = []"
  proof (rule ccontr)
    assume "cs \<noteq> []"
    with run items cands r have "err = Some (Detail (hd cs))" "st' = st"
      by (simp_all add: allocateFamily_def Let_def)
    with ch show False by simp
  qed
  with r have r0: "runStrategy L (poolItemsForFamily L pools family) ?cands
          (lockedUsed L segs family @ reserved) rules family True = Some (alloc, [])" by simp
  from runStrategy_strict_all_placed[OF r0]
  have "\<forall>s\<in>set (allocCandidates segs family). ID s \<in> dom alloc"
    by (auto simp: allocCandidates_def)
  with r0 show ?thesis by blast
qed

text \<open>On the held pool the loop of \<open>allocateInPoolIPv4\<close> alternates between \<^verbatim>\<open>cur = 0\<close> (the
  candidate \<^verbatim>\<open>0.0.0.0/1\<close> overlaps the used prefix) and \<^verbatim>\<open>cur = 2^31\<close> (\<^verbatim>\<open>cur+step\<close> wraps to 0,
  the loop condition holds, and the candidate \<^verbatim>\<open>128.0.0.0/1\<close> is outside the pool).\<close>

lemma spinning_step:
  assumes "spinning pool want used step fin cur"
  shows "u32 (cur + step) \<le> fin"
    and "\<not> Contains pool (Addr (Masked (PrefixFrom (u32ToIPv4 cur) want))) \<or>
         overlapsAny (Masked (PrefixFrom (u32ToIPv4 cur) want)) used"
    and "spinning pool want used step fin (u32 (cur + step))"
  using assms
  by (auto simp: spinning_def u32_def ip4_def Contains_def Masked_def hostBits_def u32ToIPv4_def
        overlapsAny_def prefixesOverlap_def)

lemma allocLoopIPv4_spins:
  assumes r: "allocLoopIPv4 pool want used step fin cur = Some y"
  shows "\<not> spinning pool want used step fin cur"
proof (rule allocLoopIPv4.raw_induct
    [where P = "\<lambda>pool want used step fin cur y. \<not> spinning pool want used step fin cur", OF _ r])
  fix loop :: "prefix \<Rightarrow> nat \<Rightarrow> prefix list \<Rightarrow> nat \<Rightarrow> nat \<Rightarrow> nat \<Rightarrow> prefix option option"
  fix pool want used step fin cur y
  assume ih: "\<And>pool want used step fin cur y.
      loop pool want used step fin cur = Some y \<Longrightarrow> \<not> spinning pool want used step fin cur"
  assume body: "(if u32 (cur + step) \<le> fin
      then if \<not> Contains pool (Addr (Masked (PrefixFrom (u32ToIPv4 cur) want)))
           then loop pool want used step fin (u32 (cur + step))
           else if overlapsAny (Masked (PrefixFrom (u32ToIPv4 cur) want)) used
                then loop pool want used step fin (u32 (cur + step))
                else Some (Some (Masked (PrefixFrom (u32ToIPv4 cur) want)))
      else Some None) = Some y"
  show "\<not> spinning pool want used step fin cur"
  proof
    assume s: "spinning pool want used step fin cur"
    from spinning_step(1,2)[OF s] body
    have "loop pool want used step fin (u32 (cur + step)) = Some y" by (auto split: if_splits)
    from ih[OF this] spinning_step(3)[OF s] show False by simp
  qed
qed

lemma allocateInPoolIPv4_never_returns:
  "allocateInPoolIPv4 (ip4 0 0 0 0 1) 1 [ip4 0 0 0 0 1] = None"
proof -
  have e: "allocateInPoolIPv4 (ip4 0 0 0 0 1) 1 [ip4 0 0 0 0 1] =
           allocLoopIPv4 (ip4 0 0 0 0 1) 1 [ip4 0 0 0 0 1] 2147483648 2147483648 0"
    by (simp add: allocateInPoolIPv4_def Let_def u32_def ip4_def Masked_def hostBits_def ipv4ToU32_def)
  have "spinning (ip4 0 0 0 0 1) 1 [ip4 0 0 0 0 1] 2147483648 2147483648 0"
    by (simp add: spinning_def)
  with allocLoopIPv4_spins have "allocLoopIPv4 (ip4 0 0 0 0 1) 1 [ip4 0 0 0 0 1] 2147483648 2147483648 0 = None"
    by (metis option.exhaust)
  with e show ?thesis by simp
qed


lemma wantAsk: "desiredPrefixByFamily segAsk ''ipv4'' = 1"
  by (simp add: desiredPrefixByFamily_def desiredPrefix_def segAsk_def mkSeg_def)

lemma firstFit_never_returns:
  "firstFit [mkItem ''0.0.0.0/1'' (ip4 0 0 0 0 1)] 1 [ip4 0 0 0 0 1] = None"
proof -
  have "allocateInPool (ip4 0 0 0 0 1) 1 [ip4 0 0 0 0 1] = None"
    using allocateInPoolIPv4_never_returns by (simp add: allocateInPool_def ip4_def)
  then show ?thesis by (simp add: mkItem_def)
qed

lemma spill_never_returns:
  "allocateSpillover libN [mkItem ''0.0.0.0/1'' (ip4 0 0 0 0 1)] [segAsk] [ip4 0 0 0 0 1]
     defaultProjectRules ''ipv4'' True = None"
  by (simp add: allocateSpillover_def wantAsk spillPoolList_def defaultProjectRules_def
        PoolStrategySpillover_def PoolStrategyTiered_def firstFit_never_returns
        del: firstFit.simps One_nat_def)

lemma itemsN: "poolItemsForFamily libN [mkPool ''0.0.0.0/1''] ''ipv4''
   = [mkItem ''0.0.0.0/1'' (ip4 0 0 0 0 1)]"
  by (simp add: poolItemsForFamily_def List.map_filter_simps poolItemOf_def normalizePoolFamily_def tableLib_def
    mkPool_def mkItem_def poolTierValue_def ip4_def libN_def)

lemma candsN: "allocCandidates [segHeld, segAsk] ''ipv4'' = [segAsk]"
  by (simp add: allocCandidates_def wantAsk) (simp add: segHeld_def segAsk_def mkSeg_def)

lemma lockedN: "lockedUsed libN [segHeld, segAsk] ''ipv4'' = [ip4 0 0 0 0 1]"
  by (simp add: lockedUsed_def List.map_filter_simps segmentCIDRByFamily_def segHeld_def segAsk_def
        mkSeg_def libN_def tableLib_def)

text \<open>C6 (the code departs from it). The pool \<^verbatim>\<open>0.0.0.0/1\<close> is held by a locked segment and
  an unlocked segment asks for a \<^verbatim>\<open>/1\<close>, which cannot be placed. Strict \<open>allocateSpillover\<close>
  does not stop at this segment with an \<^verbatim>\<open>ALLOCATE_FAIL\<close>, and \<open>allocateFamily\<close> does not
  return an error: the loop of \<open>allocateInPoolIPv4\<close> never ends, and neither call
  returns.\<close>

theorem strict_allocation_never_returns:
  "allocateSpillover libN [mkItem ''0.0.0.0/1'' (ip4 0 0 0 0 1)] [segAsk] [ip4 0 0 0 0 1]
     defaultProjectRules ''ipv4'' True = None \<and>
   allocateFamily libN logExec id [] 1 [segHeld, segAsk] [mkPool ''0.0.0.0/1''] []
     defaultProjectRules ''ipv4'' = None"
proof -
  have "runStrategy libN [mkItem ''0.0.0.0/1'' (ip4 0 0 0 0 1)] [segAsk] [ip4 0 0 0 0 1]
          defaultProjectRules ''ipv4'' True = None"
    using spill_never_returns
    by (simp add: runStrategy_def defaultProjectRules_def PoolStrategySpillover_def
          PoolStrategyContig_def del: One_nat_def)
  then have "allocateFamily libN logExec id [] 1 [segHeld, segAsk] [mkPool ''0.0.0.0/1''] []
     defaultProjectRules ''ipv4'' = None"
    by (simp add: allocateFamily_def Let_def itemsN candsN lockedN del: One_nat_def)
  with spill_never_returns show ?thesis by simp
qed


section \<open>Properties: used and free ranges at the last address\<close>

lemmas range_eval = buildUsedRanges_def List.map_filter_simps segmentRange_def reservedRange_def
  prefixRangeWithin_def sizeMinus1_def sub32_def u32_def ipv4ToU32_def Masked_def hostBits_def
  libT_def tableLib_def segT_def mkSeg_def ip4_def

text \<open>C4 (the code departs from it). Pool \<^verbatim>\<open>255.255.255.0/24\<close>, a segment at
  \<^verbatim>\<open>255.255.255.128/25\<close> and the reserved range \<^verbatim>\<open>255.255.255.192/26\<close>: both ranges end
  at \<open>2^32 - 1\<close>, the sum \<^verbatim>\<open>last.end+1\<close> of \<open>mergeRanges\<close> wraps to 0, the second range
  is not merged, and the two returned ranges overlap.\<close>

theorem buildUsedRanges_overlap_at_top:
  "buildUsedRanges libT (ip4 255 255 255 0 24) [segT] [ip4 255 255 255 192 26]
     = [\<lparr>rStart = 4294967168, rEnd = 4294967295\<rparr>, \<lparr>rStart = 4294967232, rEnd = 4294967295\<rparr>]"
  by (simp add: range_eval)

text \<open>C9 (the code departs from it). Pool \<^verbatim>\<open>255.255.255.0/24\<close> with one segment at
  \<^verbatim>\<open>255.255.255.128/25\<close>: the used range ends at \<open>2^32 - 1\<close>, the sum \<^verbatim>\<open>r.end+1\<close> of
  \<open>freeRanges\<close> wraps to 0, \<^verbatim>\<open>cur\<close> stays at the pool start, and the whole pool is
  returned as a second free range: 128 used and 384 free addresses in a pool of 256.\<close>

theorem freeRanges_not_complement_at_top:
  "buildUsedRanges libT (ip4 255 255 255 0 24) [segT] []
     = [\<lparr>rStart = 4294967168, rEnd = 4294967295\<rparr>] \<and>
   freeRanges (ip4 255 255 255 0 24) [\<lparr>rStart = 4294967168, rEnd = 4294967295\<rparr>]
     = [\<lparr>rStart = 4294967040, rEnd = 4294967167\<rparr>, \<lparr>rStart = 4294967040, rEnd = 4294967295\<rparr>] \<and>
   sumIPv4Ranges [\<lparr>rStart = 4294967168, rEnd = 4294967295\<rparr>] = 128 \<and>
   sumIPv4Ranges [\<lparr>rStart = 4294967040, rEnd = 4294967167\<rparr>, \<lparr>rStart = 4294967040, rEnd = 4294967295\<rparr>] = 384 \<and>
   prefixSize (ip4 255 255 255 0 24) = 256"
  by (simp add: range_eval freeRanges_def sumIPv4Ranges_def prefixSize_def addrBitLen_def)


section \<open>Properties: the analyzer\<close>

lemmas analyze_eval = analyzeSegments_def
  segmentLoop_def segmentChecks_def requestStatuses_def checkV4_def checkV6_def checkCIDR_def textsV4_def textsV6_def indexGet_def indexAppend_def
  addStatus_def prefixInAnyPool_def joinPrefixes_def segByID_def buildGroups_def overlapPair_def
  overlapLoop_def vlanKey_def vlanDup_def vlanStep_def vlanLoop_def finalStatuses_def
  prefixesOverlap_def Contains_def hostBits_def tableLib_def mkSeg_def ip4_def defaultProjectRules_def
  VlanScopeGlobal_def VlanScopeSite_def VlanScopeSiteVRF_def itoa_def itoa64_def itoaDigits.simps
  Let_def

lemmas analyzeAll_eval = analyzeAll_def buildPoolIndex_def buildReservedIndex_def
  analyzeEfficiency_def sitePoolHints_def oversizedV4_def oversizedV6_def

text \<open>C5 (the code departs from it). \<open>analyzeSegments\<close> walks the map of (site, VRF) groups
  with \<^verbatim>\<open>range\<close>. With two groups that each hold an overlapping pair, a run that walks
  group A first and a run that walks group B first return the two \<^verbatim>\<open>OVERLAP\<close> conflicts
  in opposite orders, on the same input.\<close>

theorem analyzeAll_order_follows_map_walk:
  "map Detail (snd (analyzeAll libO insertionOrders segsO [] [] defaultProjectRules))
     = [''site=R1 vrf=A: a1 10.20.0.0/26 overlaps a2 10.20.0.0/25'',
        ''site=R1 vrf=B: b1 10.20.0.0/26 overlaps b2 10.20.0.0/25''] \<and>
   map Detail (snd (analyzeAll libO reverseOrders segsO [] [] defaultProjectRules))
     = [''site=R1 vrf=B: b1 10.20.0.0/26 overlaps b2 10.20.0.0/25'',
        ''site=R1 vrf=A: a1 10.20.0.0/26 overlaps a2 10.20.0.0/25'']"
  by (simp add: analyzeAll_eval analyze_eval libO_def segsO_def insertionOrders_def reverseOrders_def)


section \<open>Properties: oversized segments\<close>


lemma hostsLoop_range: "p \<le> 32 \<Longrightarrow> 1 \<le> hostsLoop need p \<and> hostsLoop need p \<le> 32"
proof (induction need p rule: hostsLoop.induct)
  case (1 need p)
  show ?case
  proof (cases "p \<ge> 1")
    case True
    show ?thesis
    proof (cases "(2::int) ^ nat (32 - p) \<ge> need")
      case t: True
      with True have "hostsLoop need p = p" by (subst hostsLoop.simps) simp
      with True "1.prems" show ?thesis by simp
    next
      case False
      with True have e: "hostsLoop need p = hostsLoop need (p - 1)" by (subst hostsLoop.simps) simp
      from "1.IH"[OF True False] "1.prems" show ?thesis unfolding e by simp
    qed
  next
    case False
    then have "hostsLoop need p = 1" by (subst hostsLoop.simps) simp
    then show ?thesis by simp
  qed
qed

lemma hostsToPrefixIPv4_range: "1 \<le> hostsToPrefixIPv4 h \<and> hostsToPrefixIPv4 h \<le> 32"
  unfolding hostsToPrefixIPv4_def by (rule hostsLoop_range) simp

lemma sub64_plain:
  assumes "b \<le> a" and "a < 2 ^ 64"
  shows "sub64 a b = a - b"
proof -
  have b: "b mod 2 ^ 64 = b" using assms by simp
  have "a + 2 ^ 64 - b = (a - b) + 2 ^ 64" using assms by simp
  then have "(a + 2 ^ 64 - b) mod 2 ^ 64 = (a - b) mod 2 ^ 64" by (metis mod_add_self2)
  also have "\<dots> = a - b" using assms by (simp add: less_imp_diff_less)
  finally have e: "(a + 2 ^ 64 - b) mod 2 ^ 64 = a - b" .
  show ?thesis unfolding sub64_def b by (rule e)
qed

text \<open>The percentage computed in \<^verbatim>\<open>uint64\<close> is the exact integer quotient.\<close>

lemma unusedPct_exact:
  assumes "b \<le> 32" and "q < 32 - b"
  shows "wrap64 (int (u64 (sub64 (u64 (2 ^ (32 - b))) (u64 (2 ^ q)) * 100) div u64 (2 ^ (32 - b))))
         = (2 ^ (32 - b) - 2 ^ q) * 100 div 2 ^ (32 - b)"
proof -
  define a :: nat where "a = 2 ^ (32 - b)"
  define r :: nat where "r = 2 ^ q"
  have a32: "a \<le> 2 ^ 32" unfolding a_def by (rule power_increasing) auto
  have ra: "r < a" unfolding a_def r_def using assms by (intro power_strict_increasing) auto
  have p64: "(2::nat) ^ 32 < 2 ^ 64" by simp
  have a64: "a < 2 ^ 64" using a32 p64 by linarith
  have r64: "r < 2 ^ 64" using ra a64 by linarith
  have ua: "u64 a = a" and ur: "u64 r = r" using a64 r64 by (simp_all add: u64_def)
  have s: "sub64 a r = a - r" using ra a64 by (intro sub64_plain) auto
  have "(a - r) * 100 \<le> 2 ^ 32 * 100" using a32 by (intro mult_right_mono) auto
  also have "\<dots> < (2::nat) ^ 64" by simp
  finally have m: "u64 ((a - r) * 100) = (a - r) * 100" by (simp add: u64_def)
  have apos: "0 < a" unfolding a_def by simp
  have "(a - r) * 100 div a \<le> 100"
  proof -
    have "(a - r) * 100 \<le> a * 100" by (intro mult_right_mono) auto
    then have "(a - r) * 100 div a \<le> a * 100 div a" by (rule div_le_mono)
    with apos show ?thesis by simp
  qed
  then have w: "wrap64 (int ((a - r) * 100 div a)) = int ((a - r) * 100 div a)"
    by (intro wrap64_id) auto
  have "int ((a - r) * 100 div a) = (int a - int r) * 100 div int a"
    using ra by (simp add: zdiv_int of_nat_diff)
  with w show ?thesis
    unfolding a_def[symmetric] r_def[symmetric] ua ur s m by (simp add: a_def r_def)
qed


lemma gapLoopV4_kinds: "c \<in> set (gapLoopV4 L pool limit gaps) \<Longrightarrow> Kind c = ''POOL_GAP''"
  by (induction gaps arbitrary: limit) (auto simp: poolGap_def Let_def split: if_splits)

lemma gapLoopV6_kinds: "c \<in> set (gapLoopV6 L pool u limit gaps) \<Longrightarrow> Kind c = ''POOL_GAP_V6''"
  by (induction gaps arbitrary: limit) (auto simp: poolGap_def Let_def split: if_splits)

lemma poolHintsV4_kinds:
  "c \<in> set (poolHintsV4 L pool segs res) \<Longrightarrow> Kind c = ''POOL_FRAGMENTATION'' \<or> Kind c = ''POOL_GAP''"
  by (auto simp: poolHintsV4_def Let_def dest: gapLoopV4_kinds split: if_splits)

lemma poolHintsV6_kinds:
  "c \<in> set (poolHintsV6 L pool segs res) \<Longrightarrow>
   Kind c = ''POOL_FRAGMENTATION_V6'' \<or> Kind c = ''POOL_GAP_V6''"
  by (auto simp: poolHintsV6_def Let_def dest: gapLoopV6_kinds split: if_splits)

lemma oversizedV4_kinds: "c \<in> set (oversizedV4 L rules s) \<Longrightarrow> Kind c = ''OVERSIZED''"
  by (auto simp: oversizedV4_def Let_def split: option.splits if_splits)

lemma oversizedV6_kinds: "c \<in> set (oversizedV6 L rules s) \<Longrightarrow> Kind c = ''OVERSIZED_V6''"
  by (auto simp: oversizedV6_def Let_def split: option.splits if_splits)

lemma filter_none: "(\<And>x. x \<in> set xs \<Longrightarrow> \<not> P x) \<Longrightarrow> filter P xs = []"
  by (induction xs) auto

lemma filter_all: "(\<And>x. x \<in> set xs \<Longrightarrow> P x) \<Longrightarrow> filter P xs = xs"
  by (induction xs) auto

lemma analyzeEfficiency_oversized:
  "filter (\<lambda>c. Kind c = ''OVERSIZED'') (analyzeEfficiency L R segs p4 p6 r4 r6 rules)
   = concat (map (oversizedV4 L rules) segs)"
proof -
  have a: "filter (\<lambda>c. Kind c = ''OVERSIZED'') (sitePoolHints (poolHintsV4 L) segs r4 w) = []" for w
    by (rule filter_none) (auto simp: sitePoolHints_def dest!: poolHintsV4_kinds)
  have b: "filter (\<lambda>c. Kind c = ''OVERSIZED'') (sitePoolHints (poolHintsV6 L) segs r6 w) = []" for w
    by (rule filter_none) (auto simp: sitePoolHints_def dest!: poolHintsV6_kinds)
  have c: "filter (\<lambda>c. Kind c = ''OVERSIZED'') (concat (map (oversizedV6 L rules) segs)) = []"
    by (rule filter_none) (auto dest!: oversizedV6_kinds)
  have d: "filter (\<lambda>c. Kind c = ''OVERSIZED'') (concat (map (oversizedV4 L rules) segs))
      = concat (map (oversizedV4 L rules) segs)"
    by (rule filter_all) (auto dest!: oversizedV4_kinds)
  show ?thesis by (simp add: analyzeEfficiency_def a b c d)
qed

lemma hosts10: "hostsToPrefixIPv4 10 = 28"
  by (simp add: hostsToPrefixIPv4_def wrap64_def hostsLoop.simps)

lemma segV_fields: "Hosts segV = Some 10" "CIDR segV = Some ''10.20.0.0/24''"
  "ParsePrefix libV ''10.20.0.0/24'' = Some (ip4 10 20 0 0 24)" "Is4 (Addr (ip4 10 20 0 0 24))"
  "Bits (ip4 10 20 0 0 24) \<le> 32" "Bits (ip4 10 20 0 0 24) = 24"
  "Name segV = ''a1''" "Site segV = ''R1''"
  "PrefixString libV (ip4 10 20 0 0 24) = ''10.20.0.0/24''"
  by (simp_all add: segV_def mkSeg_def libV_def tableLib_def ip4_def)

lemma itoa_93_28: "itoa 93 = ''93''" "itoa 28 = ''28''"
  by (simp_all add: itoa_def itoa64_def itoaDigits.simps)


text \<open>C7, as the code has it. For a segment with a host count \<open>h\<close> whose CIDR parses to an
  IPv4 prefix of length \<open>b\<close>, with \<open>r = hostsToPrefixIPv4 h\<close>: the oversize loop of
  \<open>analyzeEfficiency\<close> emits one \<^verbatim>\<open>OVERSIZED\<close> conflict (at level \<^verbatim>\<open>Warning\<close>) for the
  segment exactly when \<open>b < r\<close>, that is when the assigned block is larger than needed,
  and \<open>(2^(32-b) - 2^(32-r)) * 100 div 2^(32-b)\<close> is at least the oversize threshold;
  otherwise it emits nothing for the segment. The \<^verbatim>\<open>OVERSIZED\<close> conflicts of
  \<open>analyzeEfficiency\<close> are these per-segment results, in segment order.\<close>

theorem oversized_exactly_when_block_larger:
  assumes "Hosts s = Some h" and "CIDR s = Some c" and "ParsePrefix L c = Some pre"
    and "Is4 (Addr pre)" and "Bits pre \<le> 32"
  shows "oversizedV4 L rules s =
           (if int (Bits pre) < hostsToPrefixIPv4 h \<and>
               OversizeThreshold rules \<le>
                 (2 ^ (32 - Bits pre) - 2 ^ nat (32 - hostsToPrefixIPv4 h)) * 100 div 2 ^ (32 - Bits pre)
            then [\<lparr>Kind = ''OVERSIZED'',
                   Detail = ''segment '' @ Name s @ '' site='' @ Site s @ '' '' @ PrefixString L pre @
                            '' exceeds hosts by '' @
                            itoa ((2 ^ (32 - Bits pre) - 2 ^ nat (32 - hostsToPrefixIPv4 h)) * 100
                                  div 2 ^ (32 - Bits pre)) @
                            ''% (need /'' @ itoa (hostsToPrefixIPv4 h) @ '')'',
                   Level = ''Warning''\<rparr>]
            else []) \<and>
         filter (\<lambda>c. Kind c = ''OVERSIZED'') (analyzeEfficiency L R segs p4 p6 r4 r6 rules)
           = concat (map (oversizedV4 L rules) segs)"
proof (rule conjI)
  let ?r = "hostsToPrefixIPv4 h"
  from hostsToPrefixIPv4_range[of h] have rr: "1 \<le> ?r" "?r \<le> 32" by auto
  show "oversizedV4 L rules s =
           (if int (Bits pre) < ?r \<and>
               OversizeThreshold rules \<le>
                 (2 ^ (32 - Bits pre) - 2 ^ nat (32 - ?r)) * 100 div 2 ^ (32 - Bits pre)
            then [\<lparr>Kind = ''OVERSIZED'',
                   Detail = ''segment '' @ Name s @ '' site='' @ Site s @ '' '' @ PrefixString L pre @
                            '' exceeds hosts by '' @
                            itoa ((2 ^ (32 - Bits pre) - 2 ^ nat (32 - ?r)) * 100
                                  div 2 ^ (32 - Bits pre)) @
                            ''% (need /'' @ itoa ?r @ '')'',
                   Level = ''Warning''\<rparr>]
            else [])"
  proof (cases "int (Bits pre) < ?r")
    case False
    with assms rr show ?thesis by (simp add: oversizedV4_def Let_def)
  next
    case True
    then have q: "nat (32 - ?r) < 32 - Bits pre" using rr assms(5) by linarith
    note e = unusedPct_exact[OF assms(5) q]
    from True assms rr show ?thesis
      by (simp add: oversizedV4_def Let_def e)
  qed
  show "filter (\<lambda>c. Kind c = ''OVERSIZED'') (analyzeEfficiency L R segs p4 p6 r4 r6 rules)
           = concat (map (oversizedV4 L rules) segs)"
    by (rule analyzeEfficiency_oversized)
qed


theorem oversized_exactly_when_block_larger_witness:
  "Hosts segV = Some 10 \<and> CIDR segV = Some ''10.20.0.0/24'' \<and>
   ParsePrefix libV ''10.20.0.0/24'' = Some (ip4 10 20 0 0 24) \<and> Is4 (Addr (ip4 10 20 0 0 24)) \<and>
   Bits (ip4 10 20 0 0 24) \<le> 32 \<and> hostsToPrefixIPv4 10 = 28 \<and>
   oversizedV4 libV defaultProjectRules segV
     = [\<lparr>Kind = ''OVERSIZED'',
         Detail = ''segment a1 site=R1 10.20.0.0/24 exceeds hosts by 93% (need /28)'',
         Level = ''Warning''\<rparr>] \<and>
   oversizedV4 libV (defaultProjectRules\<lparr>OversizeThreshold := 95\<rparr>) segV = []"
proof -
  note T = oversized_exactly_when_block_larger[OF segV_fields(1,2,3,4,5), THEN conjunct1]
  have a: "oversizedV4 libV defaultProjectRules segV
     = [\<lparr>Kind = ''OVERSIZED'',
         Detail = ''segment a1 site=R1 10.20.0.0/24 exceeds hosts by 93% (need /28)'',
         Level = ''Warning''\<rparr>]"
    unfolding T[of defaultProjectRules]
    by (simp add: hosts10 segV_fields itoa_93_28 defaultProjectRules_def)
  have b: "oversizedV4 libV (defaultProjectRules\<lparr>OversizeThreshold := 95\<rparr>) segV = []"
    unfolding T[of "defaultProjectRules\<lparr>OversizeThreshold := 95\<rparr>"]
    by (simp add: hosts10 segV_fields)
  from a b segV_fields hosts10 show ?thesis by simp
qed


text \<open>C7, as stated, asks for the actual length to be strictly larger than the required
  one. A /24 held for 10 hosts (required /28) has the shorter length, and is flagged.\<close>

theorem oversized_with_shorter_length:
  "hostsToPrefixIPv4 10 = 28 \<and> Bits (ip4 10 20 0 0 24) = 24 \<and>
   \<not> (int (Bits (ip4 10 20 0 0 24)) > hostsToPrefixIPv4 10) \<and>
   Hosts segV = Some 10 \<and> CIDR segV = Some ''10.20.0.0/24'' \<and>
   ParsePrefix libV ''10.20.0.0/24'' = Some (ip4 10 20 0 0 24) \<and>
   analyzeEfficiency libV insertionOrders [segV] [] [] [] [] defaultProjectRules
     = [\<lparr>Kind = ''OVERSIZED'',
         Detail = ''segment a1 site=R1 10.20.0.0/24 exceeds hosts by 93% (need /28)'',
         Level = ''Warning''\<rparr>]"
proof -
  have "oversizedV4 libV defaultProjectRules segV
     = [\<lparr>Kind = ''OVERSIZED'',
         Detail = ''segment a1 site=R1 10.20.0.0/24 exceeds hosts by 93% (need /28)'',
         Level = ''Warning''\<rparr>]"
    by (simp add: oversizedV4_def segV_fields hosts10 Let_def u64_def sub64_def wrap64_def
        defaultProjectRules_def itoa_93_28)
  moreover have "oversizedV6 libV defaultProjectRules segV = []"
    by (simp add: oversizedV6_def segV_def mkSeg_def)
  ultimately show ?thesis
    by (simp add: analyzeEfficiency_def sitePoolHints_def insertionOrders_def segV_fields hosts10)
qed


section \<open>Duplicate VLANs\<close>

text \<open>The VLAN loop of \<^verbatim>\<open>analyzeSegments\<close> is, as a function of the segment list, the walk
  \<open>vlanWalk\<close>; the phases before it never emit a \<^verbatim>\<open>VLAN_DUP\<close>.\<close>

lemma addStatus_apply:
  "addStatus st j lvl d i =
     (if i = j then
        Some (let s0 = (case st j of None \<Rightarrow> \<lparr>stLevel = lvl, stDetails = []\<rparr> | Some x \<Rightarrow> x);
                  s1 = (if levelNum lvl > levelNum (stLevel s0) then s0\<lparr>stLevel := lvl\<rparr> else s0)
              in (if d \<noteq> '''' then s1\<lparr>stDetails := stDetails s1 @ [d]\<rparr> else s1))
      else st i)"
  by (simp add: addStatus_def Let_def)

lemma isConf_addStatus:
  "isConf (addStatus st j lvl d) i = (isConf st i \<or> (i = j \<and> lvl = statusConflict))"
proof (cases "i = j")
  case False
  then show ?thesis by (simp add: isConf_def addStatus_apply)
next
  case True
  show ?thesis
  proof (cases "st j")
    case None
    with True show ?thesis by (simp add: isConf_def addStatus_apply Let_def)
  next
    case (Some x)
    with True show ?thesis
      by (cases lvl; cases "stLevel x") (simp_all add: isConf_def addStatus_apply Let_def)
  qed
qed

lemma find_snoc:
  "find P (xs @ [x]) = (case find P xs of None \<Rightarrow> (if P x then Some x else None) | Some y \<Rightarrow> Some y)"
  by (induction xs) auto

lemma seenOf_Nil: "seenOf rules [] = Map.empty"
  by (rule ext) (simp add: seenOf_def)

lemma seenOf_snoc:
  "seenOf rules (pre @ [s]) =
     (case find (\<lambda>t. vlanKey t rules = vlanKey s rules) pre of
        None \<Rightarrow> (seenOf rules pre)(vlanKey s rules \<mapsto> ID s)
      | Some f \<Rightarrow> seenOf rules pre)"
  by (rule ext) (auto simp: seenOf_def find_snoc split: option.splits)

lemma vlanWalk_append:
  "vlanWalk rules byId pre (u @ v) = vlanWalk rules byId pre u @ vlanWalk rules byId (pre @ u) v"
  by (induction u arbitrary: pre) auto

lemma vlan_fold:
  "foldl (vlanStep rules byId) (Map.empty, st0, cs0) segs = (seen, st, cs) \<Longrightarrow>
     seen = seenOf rules segs \<and> cs = cs0 @ vlanWalk rules byId [] segs \<and>
     (\<forall>i. isConf st0 i \<longrightarrow> isConf st i) \<and> dupPairsConf rules segs st"
proof (induction segs arbitrary: seen st cs rule: rev_induct)
  case Nil
  then show ?case by (simp add: seenOf_Nil dupPairsConf_def)
next
  case (snoc s pre)
  let ?P = "\<lambda>t. vlanKey t rules = vlanKey s rules"
  obtain seen1 st1 cs1 where f: "foldl (vlanStep rules byId) (Map.empty, st0, cs0) pre = (seen1, st1, cs1)"
    by (metis prod_cases3)
  from snoc.IH[OF f] have ih: "seen1 = seenOf rules pre" "cs1 = cs0 @ vlanWalk rules byId [] pre"
    "\<forall>i. isConf st0 i \<longrightarrow> isConf st1 i" "dupPairsConf rules pre st1" by auto
  from snoc.prems f have step: "vlanStep rules byId (seen1, st1, cs1) s = (seen, st, cs)" by simp
  show ?case
  proof (cases "find ?P pre")
    case None
    then have s1: "seen1 (vlanKey s rules) = None" by (simp add: ih(1) seenOf_def)
    from step s1 have r: "seen = seen1(vlanKey s rules \<mapsto> ID s)" "st = st1" "cs = cs1"
      by (simp_all add: vlanStep_def)
    have nokey: "\<forall>i < length pre. vlanKey (pre ! i) rules \<noteq> vlanKey s rules"
      using None by (auto simp: find_None_iff)
    have d: "dupPairsConf rules (pre @ [s]) st1"
      unfolding dupPairsConf_def
    proof (intro allI impI)
      fix i j
      assume a: "i < j \<and> j < length (pre @ [s]) \<and>
        vlanKey ((pre @ [s]) ! i) rules = vlanKey ((pre @ [s]) ! j) rules"
      show "isConf st1 (ID ((pre @ [s]) ! i)) \<and> isConf st1 (ID ((pre @ [s]) ! j))"
      proof (cases "j < length pre")
        case True
        with a ih(4) show ?thesis by (auto simp: dupPairsConf_def nth_append)
      next
        case False
        with a have "j = length pre" "i < length pre" by auto
        with a nokey show ?thesis by (auto simp: nth_append)
      qed
    qed
    show ?thesis using r ih d None by (simp add: seenOf_snoc vlanWalk_append)
  next
    case (Some fs)
    then have s1: "seen1 (vlanKey s rules) = Some (ID fs)" by (simp add: ih(1) seenOf_def)
    let ?first = "case byId (ID fs) of Some g \<Rightarrow> g | None \<Rightarrow> s\<lparr>Name := ''''\<rparr>"
    from step s1 have r: "seen = seen1"
      "st = addStatus (addStatus st1 (ID s) statusConflict ''duplicate VLAN'') (ID fs) statusConflict ''duplicate VLAN''"
      "cs = cs1 @ [vlanDup ?first s]"
      by (simp_all add: vlanStep_def)
    have mono: "isConf st1 i \<Longrightarrow> isConf st i" for i by (simp add: r(2) isConf_addStatus)
    have cs: "isConf st (ID s)" and cf: "isConf st (ID fs)" by (simp_all add: r(2) isConf_addStatus)
    from Some obtain i0 where i0: "i0 < length pre" "?P (pre ! i0)" "fs = pre ! i0"
      "\<forall>j<i0. \<not> ?P (pre ! j)" by (auto simp: find_Some_iff)
    have d: "dupPairsConf rules (pre @ [s]) st"
      unfolding dupPairsConf_def
    proof (intro allI impI)
      fix i j
      assume a: "i < j \<and> j < length (pre @ [s]) \<and>
        vlanKey ((pre @ [s]) ! i) rules = vlanKey ((pre @ [s]) ! j) rules"
      show "isConf st (ID ((pre @ [s]) ! i)) \<and> isConf st (ID ((pre @ [s]) ! j))"
      proof (cases "j < length pre")
        case True
        with a ih(4) have "isConf st1 (ID (pre ! i)) \<and> isConf st1 (ID (pre ! j))"
          by (auto simp: dupPairsConf_def nth_append)
        with True a mono show ?thesis by (auto simp: nth_append)
      next
        case False
        with a have j: "j = length pre" and i: "i < length pre" by auto
        from a j i have ki: "?P (pre ! i)" by (simp add: nth_append)
        have "i0 \<le> i" using i0(4) ki by (meson not_le_imp_less)
        have "isConf st (ID (pre ! i))"
        proof (cases "i0 = i")
          case True
          with cf i0(3) show ?thesis by simp
        next
          case False
          with \<open>i0 \<le> i\<close> have "i0 < i" by simp
          with ih(4) i i0(2) ki have "isConf st1 (ID (pre ! i))"
            by (auto simp: dupPairsConf_def)
          then show ?thesis by (rule mono)
        qed
        with cs j i show ?thesis by (simp add: nth_append)
      qed
    qed
    have m: "\<forall>i. isConf st0 i \<longrightarrow> isConf st i" using ih(3) mono by blast
    show ?thesis using r(1,3) ih(1,2) d m Some by (simp add: seenOf_snoc vlanWalk_append)
  qed
qed

text \<open>A fold whose every step appends conflicts of a kind appends conflicts of that kind.\<close>

lemma foldl_appends:
  assumes "\<And>st x. \<exists>new. g (f st x) = g st @ new \<and> (\<forall>c\<in>set new. P c)"
  shows "\<exists>new. g (foldl f st xs) = g st @ new \<and> (\<forall>c\<in>set new. P c)"
proof (induction xs arbitrary: st)
  case Nil
  show ?case by simp
next
  case (Cons x xs)
  from assms[of st x] obtain n1 where n1: "g (f st x) = g st @ n1" "\<forall>c\<in>set n1. P c" by blast
  from Cons.IH[of "f st x"] obtain n2 where
    n2: "g (foldl f (f st x) xs) = g (f st x) @ n2" "\<forall>c\<in>set n2. P c" by blast
  have "g (foldl f st (x # xs)) = g st @ (n1 @ n2)" using n1(1) n2(1) by simp
  moreover have "\<forall>c\<in>set (n1 @ n2). P c" using n1(2) n2(2) by auto
  ultimately show ?case by blast
qed

lemma checkCIDR_appends:
  assumes "T = textsV4 \<or> T = textsV6"
  shows "\<exists>new. fst (snd (checkCIDR L T pools reserved rules s c (st, cs, b))) = cs @ new \<and>
               (\<forall>x\<in>set new. Kind x \<in> segmentKinds)"
  using assms
  by (auto simp: checkCIDR_def Let_def textsV4_def textsV6_def segmentKinds_def
           split: option.splits)

lemma checkV4_appends:
  "\<exists>new. fst (snd (checkV4 L p r rules s (st, cs, b))) = cs @ new \<and>
         (\<forall>x\<in>set new. Kind x \<in> segmentKinds)"
proof (cases "CIDR s")
  case None
  then show ?thesis by (simp add: checkV4_def)
next
  case (Some c)
  with checkCIDR_appends[of textsV4 L p r rules s c st cs b] show ?thesis
    by (simp add: checkV4_def)
qed

lemma checkV6_appends:
  "\<exists>new. fst (snd (checkV6 L p r rules s (st, cs, b))) = cs @ new \<and>
         (\<forall>x\<in>set new. Kind x \<in> segmentKinds)"
proof (cases "CIDRV6 s")
  case None
  then show ?thesis by (simp add: checkV6_def)
next
  case (Some c)
  with checkCIDR_appends[of textsV6 L p r rules s c st cs b] show ?thesis
    by (simp add: checkV6_def)
qed

lemma segmentChecks_appends:
  "\<exists>new. fst (snd (segmentChecks L p4 p6 r4 r6 rules s state)) = fst (snd state) @ new \<and>
         (\<forall>x\<in>set new. Kind x \<in> segmentKinds)"
proof -
  obtain st cs b4 b6 where state: "state = (st, cs, b4, b6)" by (metis prod_cases4)
  obtain st3 cs3 b4' where
    v4: "checkV4 L p4 r4 rules s (requestStatuses s st, cs, b4) = (st3, cs3, b4')"
    by (metis prod_cases3)
  obtain st4 cs4 b6' where v6: "checkV6 L p6 r6 rules s (st3, cs3, b6) = (st4, cs4, b6')"
    by (metis prod_cases3)
  from checkV4_appends[of L p4 r4 rules s "requestStatuses s st" cs b4] v4
  obtain n1 where n1: "cs3 = cs @ n1" "\<forall>x\<in>set n1. Kind x \<in> segmentKinds" by auto
  from checkV6_appends[of L p6 r6 rules s st3 cs3 b6] v6
  obtain n2 where n2: "cs4 = cs3 @ n2" "\<forall>x\<in>set n2. Kind x \<in> segmentKinds" by auto
  have "fst (snd (segmentChecks L p4 p6 r4 r6 rules s state)) = cs4"
    by (simp add: segmentChecks_def state v4 v6)
  then have "fst (snd (segmentChecks L p4 p6 r4 r6 rules s state)) = cs @ (n1 @ n2)"
    by (simp add: n1(1) n2(1))
  moreover have "\<forall>x\<in>set (n1 @ n2). Kind x \<in> segmentKinds" using n1(2) n2(2) by auto
  ultimately show ?thesis using state by (metis fst_conv snd_conv)
qed

lemma segmentLoop_kinds:
  "\<forall>x\<in>set (fst (snd (segmentLoop L p4 p6 r4 r6 rules segs))). Kind x \<in> segmentKinds"
proof -
  from foldl_appends[where g = "\<lambda>state. fst (snd state)"
      and f = "\<lambda>state s. segmentChecks L p4 p6 r4 r6 rules s state"
      and P = "\<lambda>x. Kind x \<in> segmentKinds"
      and st = "(Map.empty, [], Map.empty, Map.empty)" and xs = segs,
      OF segmentChecks_appends]
  show ?thesis by (auto simp: segmentLoop_def)
qed

lemma overlapPair_appends:
  "\<exists>new. snd (overlapPair L kind word byID byIdSeg k state ab) = snd state @ new \<and>
         (\<forall>x\<in>set new. Kind x = kind)"
  by (cases state) (auto simp: overlapPair_def split: option.splits)

lemma overlapLoop_appends:
  "\<exists>new. snd (overlapLoop L kind word byID byIdSeg groups state) = snd state @ new \<and>
         (\<forall>x\<in>set new. Kind x = kind)"
  unfolding overlapLoop_def
  by (rule foldl_appends[where g = snd]) (rule foldl_appends[where g = snd], rule overlapPair_appends)


lemma vlanWalk_fresh:
  "distinct (map (\<lambda>s. vlanKey s rules) rest) \<Longrightarrow>
   (\<forall>t\<in>set pre. \<forall>s\<in>set rest. vlanKey t rules \<noteq> vlanKey s rules) \<Longrightarrow>
   vlanWalk rules byId pre rest = []"
proof (induction rest arbitrary: pre)
  case Nil
  show ?case by simp
next
  case (Cons s rest)
  have f: "find (\<lambda>t. vlanKey t rules = vlanKey s rules) pre = None"
    using Cons.prems(2) by (auto simp: find_None_iff)
  have d: "distinct (map (\<lambda>s. vlanKey s rules) rest)" using Cons.prems(1) by simp
  have n: "\<forall>t\<in>set (pre @ [s]). \<forall>u\<in>set rest. vlanKey t rules \<noteq> vlanKey u rules"
    using Cons.prems by auto
  from Cons.IH[OF d n] f show ?case by simp
qed

lemma find_distinct_key:
  "distinct (map f xs) \<Longrightarrow> x \<in> set xs \<Longrightarrow> find (\<lambda>t. f t = f x) xs = Some x"
  by (induction xs) auto

lemma vlanWalk_one_pair:
  assumes seg: "segs = xs @ a # ys @ b # zs"
    and key: "vlanKey a rules = vlanKey b rules"
    and dist: "distinct (map (\<lambda>s. vlanKey s rules) (xs @ a # ys @ zs))"
  shows "vlanWalk rules byId [] segs =
           [vlanDup (case byId (ID a) of Some g \<Rightarrow> g | None \<Rightarrow> b\<lparr>Name := ''''\<rparr>) b]"
proof -
  have d1: "distinct (map (\<lambda>s. vlanKey s rules) (xs @ a # ys))" using dist by auto
  have w1: "vlanWalk rules byId [] (xs @ a # ys) = []"
    by (rule vlanWalk_fresh[OF d1]) simp
  have "find (\<lambda>t. vlanKey t rules = vlanKey a rules) (xs @ a # ys) = Some a"
    by (rule find_distinct_key[OF d1]) simp
  then have f: "find (\<lambda>t. vlanKey t rules = vlanKey b rules) (xs @ a # ys) = Some a"
    by (simp add: key)
  have d2: "distinct (map (\<lambda>s. vlanKey s rules) zs)" using dist by auto
  have n: "\<forall>t\<in>set ((xs @ a # ys) @ [b]). \<forall>u\<in>set zs. vlanKey t rules \<noteq> vlanKey u rules"
    using dist key by auto
  have w3: "vlanWalk rules byId ((xs @ a # ys) @ [b]) zs = []"
    by (rule vlanWalk_fresh[OF d2 n])
  have "segs = (xs @ a # ys) @ (b # zs)" using seg by simp
  then have "vlanWalk rules byId [] segs =
      vlanWalk rules byId [] (xs @ a # ys) @ vlanWalk rules byId ([] @ (xs @ a # ys)) (b # zs)"
    by (simp only: vlanWalk_append)
  then show ?thesis using w1 f w3 by simp
qed

lemma segByID_snoc: "segByID (pre @ [x]) = (segByID pre)(ID x \<mapsto> x)"
  by (simp add: segByID_def)

lemma segByID_distinct:
  "distinct (map ID segs) \<Longrightarrow> s \<in> set segs \<Longrightarrow> segByID segs (ID s) = Some s"
proof (induction segs rule: rev_induct)
  case Nil
  then show ?case by simp
next
  case (snoc x pre)
  show ?case
  proof (cases "s = x")
    case True
    then show ?thesis by (simp add: segByID_snoc)
  next
    case False
    with snoc.prems have m: "s \<in> set pre" and d: "distinct (map ID pre)"
      and n: "ID x \<notin> ID ` set pre" by auto
    from m n have "ID s \<noteq> ID x" by (metis imageI)
    with snoc.IH[OF d m] show ?thesis by (simp add: segByID_snoc)
  qed
qed

lemma vlanWalk_kinds:
  "\<forall>c\<in>set (vlanWalk rules byId pre rest). Kind c = ''VLAN_DUP'' \<and> Level c = ''Conflict''"
  by (induction rest arbitrary: pre) (auto simp: vlanDup_def split: option.splits)

lemma vlanWalk_dup:
  "i < j \<Longrightarrow> j < length segs \<Longrightarrow> vlanKey (segs ! i) rules = vlanKey (segs ! j) rules \<Longrightarrow>
   \<exists>f. vlanDup f (segs ! j) \<in> set (vlanWalk rules byId [] segs)"
proof -
  assume a: "i < j" "j < length segs" "vlanKey (segs ! i) rules = vlanKey (segs ! j) rules"
  have s: "segs = take j segs @ (segs ! j) # drop (Suc j) segs"
    using a(2) by (simp add: id_take_nth_drop)
  have m: "segs ! i \<in> set (take j segs)"
    using a(1,2) by (metis in_set_conv_nth length_take min.absorb2 nth_take less_imp_le_nat)
  then have "find (\<lambda>t. vlanKey t rules = vlanKey (segs ! j) rules) (take j segs) \<noteq> None"
    using a(3) by (auto simp: find_None_iff)
  then obtain f where f: "find (\<lambda>t. vlanKey t rules = vlanKey (segs ! j) rules) (take j segs) = Some f"
    by auto
  have "vlanWalk rules byId [] segs =
     vlanWalk rules byId [] (take j segs) @
     vlanWalk rules byId ([] @ take j segs) ((segs ! j) # drop (Suc j) segs)"
    by (subst s, simp only: vlanWalk_append)
  then show ?thesis using f by auto
qed


lemma analyzeSegments_vlan:
  assumes "analyzeSegments L R segs p4 p6 r4 r6 rules = (out, cs)"
  shows "\<exists>pre st. cs = pre @ vlanWalk rules (segByID segs) [] segs \<and>
           (\<forall>c\<in>set pre. Kind c \<noteq> ''VLAN_DUP'') \<and>
           out = finalStatuses segs st \<and> dupPairsConf rules segs st"
proof -
  obtain st0 cs0 byID byIDV6 where
    l: "segmentLoop L p4 p6 r4 r6 rules segs = (st0, cs0, byID, byIDV6)"
    by (metis prod_cases4)
  from segmentLoop_kinds[of L p4 p6 r4 r6 rules segs] l
  have k0: "\<forall>c\<in>set cs0. Kind c \<noteq> ''VLAN_DUP''" by (auto simp: segmentKinds_def)
  obtain st1 cs1 where
    o1: "overlapLoop L ''OVERLAP'' ''overlap with '' byID (segByID segs)
           (groupOrder4 R (buildGroups byID segs)) (st0, cs0) = (st1, cs1)"
    by (metis prod.exhaust)
  from overlapLoop_appends[of L "''OVERLAP''" "''overlap with ''" byID "segByID segs"
      "groupOrder4 R (buildGroups byID segs)" "(st0, cs0)"] o1
  obtain n1 where n1: "cs1 = cs0 @ n1" "\<forall>x\<in>set n1. Kind x = ''OVERLAP''" by auto
  obtain st2 cs2 where
    o2: "overlapLoop L ''OVERLAP_V6'' ''v6 overlap with '' byIDV6 (segByID segs)
           (groupOrder6 R (buildGroups byIDV6 segs)) (st1, cs1) = (st2, cs2)"
    by (metis prod.exhaust)
  from overlapLoop_appends[of L "''OVERLAP_V6''" "''v6 overlap with ''" byIDV6 "segByID segs"
      "groupOrder6 R (buildGroups byIDV6 segs)" "(st1, cs1)"] o2
  obtain n2 where n2: "cs2 = cs1 @ n2" "\<forall>x\<in>set n2. Kind x = ''OVERLAP_V6''" by auto
  have k2: "\<forall>c\<in>set cs2. Kind c \<noteq> ''VLAN_DUP''" using k0 n1 n2 by auto
  obtain seen st3 cs3 where
    v: "foldl (vlanStep rules (segByID segs)) (Map.empty, st2, cs2) segs = (seen, st3, cs3)"
    by (metis prod_cases3)
  from vlan_fold[OF v] have w: "cs3 = cs2 @ vlanWalk rules (segByID segs) [] segs"
    and d: "dupPairsConf rules segs st3" by auto
  have "analyzeSegments L R segs p4 p6 r4 r6 rules = (finalStatuses segs st3, cs3)"
    by (simp add: analyzeSegments_def l o1 o2 vlanLoop_def v Let_def)
  with assms have "out = finalStatuses segs st3" "cs = cs3" by auto
  with w d k2 show ?thesis by blast
qed

lemma finalStatuses_conf:
  "isConf st (ID s) \<Longrightarrow> s \<in> set segs \<Longrightarrow>
   \<exists>x. finalStatuses segs st (ID s) = Some x \<and> stLevel x = statusConflict"
  by (auto simp: finalStatuses_def isConf_def split: option.splits)

lemma filter_vlan_pre:
  "(\<forall>c\<in>set pre. Kind c \<noteq> ''VLAN_DUP'') \<Longrightarrow>
   (\<forall>c\<in>set w. Kind c = ''VLAN_DUP'' \<and> Level c = ''Conflict'') \<Longrightarrow>
   filter (\<lambda>c. Kind c = ''VLAN_DUP'') (pre @ w) = w"
proof -
  assume a: "\<forall>c\<in>set pre. Kind c \<noteq> ''VLAN_DUP''"
    and b: "\<forall>c\<in>set w. Kind c = ''VLAN_DUP'' \<and> Level c = ''Conflict''"
  from a have "filter (\<lambda>c. Kind c = ''VLAN_DUP'') pre = []" by (simp add: filter_empty_conv)
  moreover from b have "filter (\<lambda>c. Kind c = ''VLAN_DUP'') w = w" by (simp add: filter_id_conv)
  ultimately show ?thesis by simp
qed

text \<open>\<open>itoa\<close> is one-to-one on the values of a Go \<^verbatim>\<open>int\<close> and prints no \<^verbatim>\<open>|\<close>, so a key
  determines the fields it is built from (under the scope \<^verbatim>\<open>site_vrf\<close>: when the VRF names
  hold no \<^verbatim>\<open>|\<close>).\<close>

lemma itoaDigits_buf: "itoaDigits n buf = itoaDigits n [] @ buf"
proof (induction n arbitrary: buf rule: less_induct)
  case (less n)
  show ?case
  proof (cases "n > 0")
    case False
    then show ?thesis by (simp add: itoaDigits.simps)
  next
    case True
    then have d: "n div 10 < n" by simp
    have "itoaDigits n buf = itoaDigits (n div 10) ((''0123456789'' ! (n mod 10)) # buf)"
      using True by (subst itoaDigits.simps) simp
    also have "\<dots> = itoaDigits (n div 10) [] @ ((''0123456789'' ! (n mod 10)) # buf)"
      by (rule less.IH[OF d])
    also have "\<dots> = (itoaDigits (n div 10) [] @ [''0123456789'' ! (n mod 10)]) @ buf" by simp
    also have "itoaDigits (n div 10) [] @ [''0123456789'' ! (n mod 10)] =
               itoaDigits (n div 10) [''0123456789'' ! (n mod 10)]"
      by (rule less.IH[OF d, symmetric])
    also have "\<dots> = itoaDigits n []" using True by (subst (2) itoaDigits.simps) simp
    finally show ?thesis .
  qed
qed

lemma itoaDigits_0: "itoaDigits 0 buf = buf"
  by (simp add: itoaDigits.simps)

lemma itoaDigits_pos:
  "n > 0 \<Longrightarrow> itoaDigits n [] = itoaDigits (n div 10) [] @ [''0123456789'' ! (n mod 10)]"
  by (subst itoaDigits.simps, simp, subst itoaDigits_buf, simp)

lemma digit_inj: "a < 10 \<Longrightarrow> b < 10 \<Longrightarrow> ''0123456789'' ! a = ''0123456789'' ! b \<Longrightarrow> a = (b::nat)"
proof -
  assume a: "a < 10" "b < 10" "''0123456789'' ! a = ''0123456789'' ! b"
  have "distinct ''0123456789''" by simp
  with a show ?thesis by (simp add: nth_eq_iff_index_eq)
qed

lemma digit_in: "a < 10 \<Longrightarrow> ''0123456789'' ! a \<in> set ''0123456789''"
  by (rule nth_mem) simp

lemma itoaDigits_inj: "itoaDigits n [] = itoaDigits m [] \<Longrightarrow> n = m"
proof (induction n arbitrary: m rule: less_induct)
  case (less n)
  show ?case
  proof (cases "n > 0")
    case False
    then have "itoaDigits m [] = []" using less.prems by (simp add: itoaDigits_0)
    then have "\<not> m > 0" using itoaDigits_pos[of m] by auto
    with False show ?thesis by simp
  next
    case True
    have "m > 0"
    proof (rule ccontr)
      assume "\<not> m > 0"
      then have "itoaDigits m [] = []" by (simp add: itoaDigits_0)
      with less.prems itoaDigits_pos[OF True] show False by simp
    qed
    from less.prems itoaDigits_pos[OF True] itoaDigits_pos[OF \<open>m > 0\<close>]
    have e: "itoaDigits (n div 10) [] = itoaDigits (m div 10) []"
      and d: "''0123456789'' ! (n mod 10) = ''0123456789'' ! (m mod 10)" by simp_all
    have "n div 10 < n" using True by simp
    from less.IH[OF this e] have "n div 10 = m div 10" .
    moreover have "n mod 10 = m mod 10" by (rule digit_inj[OF _ _ d]) simp_all
    ultimately show ?thesis by (metis div_mult_mod_eq)
  qed
qed

lemma itoaDigits_chars: "set (itoaDigits n []) \<subseteq> set ''0123456789''"
proof (induction n rule: less_induct)
  case (less n)
  show ?case
  proof (cases "n > 0")
    case False
    then show ?thesis by (simp add: itoaDigits_0)
  next
    case True
    have "n div 10 < n" using True by simp
    from less.IH[OF this] digit_in[of "n mod 10"] show ?thesis
      by (simp only: itoaDigits_pos[OF True] set_append) auto
  qed
qed

lemma itoaDigits_not_zero: "itoaDigits n [] \<noteq> ''0''"
proof
  assume a: "itoaDigits n [] = ''0''"
  then have "n > 0" by (cases "n > 0") (simp_all add: itoaDigits_0)
  from a itoaDigits_pos[OF this] have "itoaDigits (n div 10) [] = []"
    and "''0123456789'' ! (n mod 10) = CHR ''0''" by simp_all
  then have "n div 10 = 0" and "n mod 10 = 0"
    using itoaDigits_inj[of "n div 10" 0] digit_inj[of "n mod 10" 0]
    by (simp_all add: itoaDigits_0)
  with \<open>n > 0\<close> show False by (metis div_mult_mod_eq mult_zero_left add_0 less_numeral_extra(3))
qed


lemma itoa_pos: "i > 0 \<Longrightarrow> itoa i = itoaDigits (nat i) []"
  by (simp add: itoa_def itoa64_def)

lemma itoa_neg: "i < 0 \<Longrightarrow> itoa i = CHR ''-'' # itoaDigits (nat (wrap64 (- i))) []"
  by (simp add: itoa_def itoa64_def)

lemma itoa_zero: "itoa 0 = ''0''"
  by (simp add: itoa_def itoa64_def)

lemma wrap64_neg:
  "goInt i \<Longrightarrow> i < 0 \<Longrightarrow> nat (wrap64 (- i)) = (if i = - (2 ^ 63) then 0 else nat (- i))"
  by (auto simp: goInt_def wrap64_def)

lemma itoa_chars: "set (itoa i) \<subseteq> set ''-0123456789''"
proof -
  have sub: "set ''0123456789'' \<subseteq> set ''-0123456789''" by (rule set_subset_Cons)
  consider "i = 0" | "i > 0" | "i < 0" by linarith
  then show ?thesis
  proof cases
    case 1
    then show ?thesis by (simp add: itoa_zero)
  next
    case 2
    then have "set (itoa i) \<subseteq> set ''0123456789''"
      by (simp only: itoa_pos itoaDigits_chars)
    then show ?thesis using sub by (rule order_trans)
  next
    case 3
    have "set (itoaDigits (nat (wrap64 (- i))) []) \<subseteq> set ''-0123456789''"
      using itoaDigits_chars sub by (rule order_trans)
    then show ?thesis by (simp only: itoa_neg[OF 3] set_simps insert_subset) simp
  qed
qed

lemma itoa_no_bar: "CHR ''|'' \<notin> set (itoa i)"
proof -
  have "CHR ''|'' \<notin> set ''-0123456789''" by simp
  with itoa_chars[of i] show ?thesis by blast
qed

lemma itoaDigits_no_minus: "itoaDigits n [] \<noteq> CHR ''-'' # r"
proof
  assume "itoaDigits n [] = CHR ''-'' # r"
  then have "CHR ''-'' \<in> set (itoaDigits n [])" by simp
  with itoaDigits_chars[of n] have "CHR ''-'' \<in> set ''0123456789''" by blast
  then show False by simp
qed

lemma itoa_inj:
  assumes "goInt i" and "goInt j" and e: "itoa i = itoa j"
  shows "i = j"
proof -
  have neg: "a = b" if "goInt a" "goInt b" "a < 0" "b < 0" "itoa a = itoa b" for a b
  proof -
    from that have "itoaDigits (nat (wrap64 (- a))) [] = itoaDigits (nat (wrap64 (- b))) []"
      by (simp add: itoa_neg)
    then have "nat (wrap64 (- a)) = nat (wrap64 (- b))" by (rule itoaDigits_inj)
    with that show ?thesis by (simp add: wrap64_neg split: if_splits)
  qed
  have pos: "a = b" if "a > 0" "b > 0" "itoa a = itoa b" for a b
  proof -
    from that have "nat a = nat b" by (simp add: itoa_pos itoaDigits_inj)
    with that show ?thesis by simp
  qed
  have zp: False if "b > 0" "itoa 0 = itoa b" for b
    using that itoaDigits_not_zero[of "nat b"] by (simp add: itoa_zero itoa_pos)
  have zn: False if "b < 0" "itoa 0 = itoa b" for b
    using that by (simp add: itoa_zero itoa_neg)
  have pn: False if "a > 0" "b < 0" "itoa a = itoa b" for a b
    using that itoaDigits_no_minus[of "nat a"] by (simp add: itoa_pos itoa_neg)
  consider "i = 0" | "i > 0" | "i < 0" by linarith
  then show ?thesis
  proof cases
    case 1
    consider "j = 0" | "j > 0" | "j < 0" by linarith
    then show ?thesis using 1 e zp[of j] zn[of j] by cases auto
  next
    case 2
    consider "j = 0" | "j > 0" | "j < 0" by linarith
    then show ?thesis using 2 e zp[of i] pos[of i j] pn[of i j] by cases auto
  next
    case 3
    consider "j = 0" | "j > 0" | "j < 0" by linarith
    then show ?thesis using 3 e zn[of i] pn[of j i] neg[OF assms(1,2)] by cases auto
  qed
qed

lemma split_at_last:
  "c \<notin> set y \<Longrightarrow> c \<notin> set y' \<Longrightarrow> x @ c # y = x' @ c # y' \<Longrightarrow> x = x' \<and> y = y'"
proof (induction x arbitrary: x')
  case Nil
  then show ?case by (cases x') auto
next
  case (Cons a x)
  show ?case
  proof (cases x')
    case Nil
    with Cons.prems show ?thesis by auto
  next
    case (Cons b x'')
    with Cons.prems Cons.IH[of x''] show ?thesis by auto
  qed
qed

lemma vlanKey_format:
  "vlanKey s rules =
     (if VLANScope rules = ''global'' then itoa (VLAN s)
      else if VLANScope rules = ''site'' then Site s @ ''|'' @ itoa (VLAN s)
      else Site s @ ''|'' @ VRF s @ ''|'' @ itoa (VLAN s))"
  by (simp add: vlanKey_def VlanScopeGlobal_def VlanScopeSite_def)

lemma vlanKey_same_scope:
  "specSameVlanScope rules s t \<Longrightarrow> vlanKey s rules = vlanKey t rules"
  by (simp add: vlanKey_format specSameVlanScope_def split: if_splits)

lemma vlanKey_scope_eq:
  assumes i: "goInt (VLAN s)" "goInt (VLAN t)"
    and b: "VLANScope rules = ''global'' \<or> VLANScope rules = ''site'' \<or>
            (CHR ''|'' \<notin> set (VRF s) \<and> CHR ''|'' \<notin> set (VRF t))"
    and k: "vlanKey s rules = vlanKey t rules"
  shows "specSameVlanScope rules s t"
proof -
  consider (g) "VLANScope rules = ''global''"
    | (s) "VLANScope rules \<noteq> ''global''" "VLANScope rules = ''site''"
    | (v) "VLANScope rules \<noteq> ''global''" "VLANScope rules \<noteq> ''site''" by blast
  then show ?thesis
  proof cases
    case g
    with k have "itoa (VLAN s) = itoa (VLAN t)" by (simp add: vlanKey_format)
    from itoa_inj[OF i this] g show ?thesis by (simp add: specSameVlanScope_def)
  next
    case s
    with k have "Site s @ CHR ''|'' # itoa (VLAN s) = Site t @ CHR ''|'' # itoa (VLAN t)"
      by (simp add: vlanKey_format)
    from split_at_last[OF itoa_no_bar itoa_no_bar this]
    have "Site s = Site t" "itoa (VLAN s) = itoa (VLAN t)" by simp_all
    with itoa_inj[OF i] s show ?thesis by (simp add: specSameVlanScope_def)
  next
    case v
    with k have "(Site s @ CHR ''|'' # VRF s) @ CHR ''|'' # itoa (VLAN s) =
                 (Site t @ CHR ''|'' # VRF t) @ CHR ''|'' # itoa (VLAN t)"
      by (simp add: vlanKey_format)
    from split_at_last[OF itoa_no_bar itoa_no_bar this]
    have e: "Site s @ CHR ''|'' # VRF s = Site t @ CHR ''|'' # VRF t"
      and n: "itoa (VLAN s) = itoa (VLAN t)" by simp_all
    from v b have "CHR ''|'' \<notin> set (VRF s)" "CHR ''|'' \<notin> set (VRF t)" by auto
    from split_at_last[OF this e] have "Site s = Site t" "VRF s = VRF t" by simp_all
    with itoa_inj[OF i n] v show ?thesis by (simp add: specSameVlanScope_def)
  qed
qed

lemma itoa_10: "itoa 10 = ''10''"
  by (simp add: itoa_def itoa64_def itoaDigits.simps)

lemma segD_fields:
  "Site segDa = ''R1''" "VRF segDa = ''A''" "VLAN segDa = 10" "Name segDa = ''seg-a''" "ID segDa = 1"
  "Site segDb = ''R1''" "VRF segDb = ''B''" "VLAN segDb = 10" "Name segDb = ''seg-b''" "ID segDb = 2"
  "Site segDc = ''R2''" "VRF segDc = ''A''" "VLAN segDc = 10" "Name segDc = ''seg-c''" "ID segDc = 3"
  by (simp_all add: segDa_def segDb_def segDc_def mkSeg_def)

lemma keysD:
  "vlanKey segDa siteScopeRules = ''R1|10''" "vlanKey segDb siteScopeRules = ''R1|10''"
  "vlanKey segDa defaultProjectRules = ''R1|A|10''"
  "vlanKey segDb defaultProjectRules = ''R1|B|10''"
  "vlanKey segDc siteScopeRules = ''R2|10''"
  "vlanKey segDa globalScopeRules = ''10''" "vlanKey segDc globalScopeRules = ''10''"
  by (simp_all add: vlanKey_format siteScopeRules_def globalScopeRules_def defaultProjectRules_def
        VlanScopeSiteVRF_def VlanScopeSite_def VlanScopeGlobal_def segD_fields itoa_10)

text \<open>C8. The key of a segment is built from the rules' VLAN scope: the VLAN alone for
  \<^verbatim>\<open>global\<close>, \<^verbatim>\<open>site|VLAN\<close> for \<^verbatim>\<open>site\<close>, \<^verbatim>\<open>site|VRF|VLAN\<close> otherwise; two segments in the same
  scope (same VLAN; same site and VLAN; same site, VRF and VLAN) have the same key, and
  two segments with the same key are in the same scope (the VLANs being Go integers
  and, under \<^verbatim>\<open>site|VRF|VLAN\<close>, the VRF names holding no \<^verbatim>\<open>|\<close>). For every run of
  \<open>analyzeSegments\<close>: whenever two segments at different positions of the list have the
  same key, a \<^verbatim>\<open>VLAN_DUP\<close> conflict at level \<^verbatim>\<open>Conflict\<close> is emitted for the later one and the
  returned statuses of both are at level \<^verbatim>\<open>Conflict\<close>; every \<^verbatim>\<open>VLAN_DUP\<close> conflict is at
  level \<^verbatim>\<open>Conflict\<close>; when exactly two segments \<open>a\<close> and \<open>b\<close> collide (the keys of the others
  are distinct from one another and from theirs) and the ids are distinct, exactly one
  \<^verbatim>\<open>VLAN_DUP\<close> is emitted and its detail ends with the two names, \<open>a\<close>'s before \<open>b\<close>'s; when
  all keys are distinct no \<^verbatim>\<open>VLAN_DUP\<close> is emitted.\<close>

theorem vlan_dup_reported:
  assumes run: "analyzeSegments L R segs p4 p6 r4 r6 rules = (out, cs)"
  shows "(\<forall>s. vlanKey s rules =
            (if VLANScope rules = ''global'' then itoa (VLAN s)
             else if VLANScope rules = ''site'' then Site s @ ''|'' @ itoa (VLAN s)
             else Site s @ ''|'' @ VRF s @ ''|'' @ itoa (VLAN s))) \<and>
    (\<forall>s t. (specSameVlanScope rules s t \<longrightarrow> vlanKey s rules = vlanKey t rules) \<and>
           (goInt (VLAN s) \<and> goInt (VLAN t) \<and>
            (VLANScope rules = ''global'' \<or> VLANScope rules = ''site'' \<or>
             (CHR ''|'' \<notin> set (VRF s) \<and> CHR ''|'' \<notin> set (VRF t))) \<and>
            vlanKey s rules = vlanKey t rules \<longrightarrow> specSameVlanScope rules s t)) \<and>
    (\<forall>i j. i < j \<and> j < length segs \<and> vlanKey (segs ! i) rules = vlanKey (segs ! j) rules \<longrightarrow>
            (\<exists>f::Segment. \<lparr>Kind = ''VLAN_DUP'',
                   Detail = ''site='' @ Site (segs ! j) @ '' vrf='' @ VRF (segs ! j) @ '' vlan='' @
                            itoa (VLAN (segs ! j)) @ '' duplicated: '' @ Name f @ '', '' @ Name (segs ! j),
                   Level = ''Conflict''\<rparr> \<in> set cs) \<and>
            (\<exists>x. out (ID (segs ! i)) = Some x \<and> stLevel x = statusConflict) \<and>
            (\<exists>x. out (ID (segs ! j)) = Some x \<and> stLevel x = statusConflict)) \<and>
    (\<forall>c\<in>set cs. Kind c = ''VLAN_DUP'' \<longrightarrow> Level c = ''Conflict'') \<and>
    (\<forall>xs a ys b zs. segs = xs @ a # ys @ b # zs \<and> vlanKey a rules = vlanKey b rules \<and>
            distinct (map (\<lambda>s. vlanKey s rules) (xs @ a # ys @ zs)) \<and> distinct (map ID segs) \<longrightarrow>
            filter (\<lambda>c. Kind c = ''VLAN_DUP'') cs =
              [\<lparr>Kind = ''VLAN_DUP'',
                Detail = ''site='' @ Site b @ '' vrf='' @ VRF b @ '' vlan='' @ itoa (VLAN b) @
                         '' duplicated: '' @ Name a @ '', '' @ Name b,
                Level = ''Conflict''\<rparr>]) \<and>
    (distinct (map (\<lambda>s. vlanKey s rules) segs) \<longrightarrow> filter (\<lambda>c. Kind c = ''VLAN_DUP'') cs = [])"
proof -
  from analyzeSegments_vlan[OF run] obtain pre st where
    cs: "cs = pre @ vlanWalk rules (segByID segs) [] segs"
    and pre: "\<forall>c\<in>set pre. Kind c \<noteq> ''VLAN_DUP''"
    and out: "out = finalStatuses segs st"
    and dup: "dupPairsConf rules segs st" by blast
  note wk = vlanWalk_kinds[of rules "segByID segs" "[]" segs]
  have fl: "filter (\<lambda>c. Kind c = ''VLAN_DUP'') cs = vlanWalk rules (segByID segs) [] segs"
    unfolding cs by (rule filter_vlan_pre[OF pre wk])
  have p1: "\<forall>i j. i < j \<and> j < length segs \<and> vlanKey (segs ! i) rules = vlanKey (segs ! j) rules \<longrightarrow>
            (\<exists>f::Segment. \<lparr>Kind = ''VLAN_DUP'',
                   Detail = ''site='' @ Site (segs ! j) @ '' vrf='' @ VRF (segs ! j) @ '' vlan='' @
                            itoa (VLAN (segs ! j)) @ '' duplicated: '' @ Name f @ '', '' @ Name (segs ! j),
                   Level = ''Conflict''\<rparr> \<in> set cs) \<and>
            (\<exists>x. out (ID (segs ! i)) = Some x \<and> stLevel x = statusConflict) \<and>
            (\<exists>x. out (ID (segs ! j)) = Some x \<and> stLevel x = statusConflict)"
  proof (intro allI impI)
    fix i j
    assume a: "i < j \<and> j < length segs \<and> vlanKey (segs ! i) rules = vlanKey (segs ! j) rules"
    then have ij: "i < j" "j < length segs" "i < length segs"
      and k: "vlanKey (segs ! i) rules = vlanKey (segs ! j) rules" by auto
    from vlanWalk_dup[OF ij(1) ij(2) k, of "segByID segs"] obtain f where
      "vlanDup f (segs ! j) \<in> set (vlanWalk rules (segByID segs) [] segs)" by blast
    then have "vlanDup f (segs ! j) \<in> set cs" by (simp add: cs)
    then have "\<lparr>Kind = ''VLAN_DUP'',
                   Detail = ''site='' @ Site (segs ! j) @ '' vrf='' @ VRF (segs ! j) @ '' vlan='' @
                            itoa (VLAN (segs ! j)) @ '' duplicated: '' @ Name f @ '', '' @ Name (segs ! j),
                   Level = ''Conflict''\<rparr> \<in> set cs" (is "?c f \<in> _") by (simp add: vlanDup_def)
    then have "\<exists>g. ?c g \<in> set cs" by (intro exI)
    then have c1: "\<exists>f::Segment. \<lparr>Kind = ''VLAN_DUP'',
                   Detail = ''site='' @ Site (segs ! j) @ '' vrf='' @ VRF (segs ! j) @ '' vlan='' @
                            itoa (VLAN (segs ! j)) @ '' duplicated: '' @ Name f @ '', '' @ Name (segs ! j),
                   Level = ''Conflict''\<rparr> \<in> set cs"
      by simp
    from dup a have "isConf st (ID (segs ! i))" "isConf st (ID (segs ! j))"
      by (auto simp: dupPairsConf_def)
    with ij have c2: "\<exists>x. out (ID (segs ! i)) = Some x \<and> stLevel x = statusConflict"
      and c3: "\<exists>x. out (ID (segs ! j)) = Some x \<and> stLevel x = statusConflict"
      unfolding out by (auto intro!: finalStatuses_conf)
    from c1 c2 c3
    show "(\<exists>f::Segment. \<lparr>Kind = ''VLAN_DUP'',
                   Detail = ''site='' @ Site (segs ! j) @ '' vrf='' @ VRF (segs ! j) @ '' vlan='' @
                            itoa (VLAN (segs ! j)) @ '' duplicated: '' @ Name f @ '', '' @ Name (segs ! j),
                   Level = ''Conflict''\<rparr> \<in> set cs) \<and>
            (\<exists>x. out (ID (segs ! i)) = Some x \<and> stLevel x = statusConflict) \<and>
            (\<exists>x. out (ID (segs ! j)) = Some x \<and> stLevel x = statusConflict)"
      by blast
  qed
  have p2: "\<forall>c\<in>set cs. Kind c = ''VLAN_DUP'' \<longrightarrow> Level c = ''Conflict''"
    using pre wk unfolding cs by auto
  have p3: "\<forall>xs a ys b zs. segs = xs @ a # ys @ b # zs \<and> vlanKey a rules = vlanKey b rules \<and>
            distinct (map (\<lambda>s. vlanKey s rules) (xs @ a # ys @ zs)) \<and> distinct (map ID segs) \<longrightarrow>
            filter (\<lambda>c. Kind c = ''VLAN_DUP'') cs =
              [\<lparr>Kind = ''VLAN_DUP'',
                Detail = ''site='' @ Site b @ '' vrf='' @ VRF b @ '' vlan='' @ itoa (VLAN b) @
                         '' duplicated: '' @ Name a @ '', '' @ Name b,
                Level = ''Conflict''\<rparr>]"
  proof (intro allI impI)
    fix xs a ys b zs
    assume h: "segs = xs @ a # ys @ b # zs \<and> vlanKey a rules = vlanKey b rules \<and>
            distinct (map (\<lambda>s. vlanKey s rules) (xs @ a # ys @ zs)) \<and> distinct (map ID segs)"
    then have seg: "segs = xs @ a # ys @ b # zs" and key: "vlanKey a rules = vlanKey b rules"
      and dist: "distinct (map (\<lambda>s. vlanKey s rules) (xs @ a # ys @ zs))"
      and ids: "distinct (map ID segs)" by blast+
    have "a \<in> set segs" using seg by simp
    from segByID_distinct[OF ids this] have bya: "segByID segs (ID a) = Some a" .
    from vlanWalk_one_pair[OF seg key dist, of "segByID segs"] bya
    have "vlanWalk rules (segByID segs) [] segs = [vlanDup a b]" by simp
    with fl show "filter (\<lambda>c. Kind c = ''VLAN_DUP'') cs =
              [\<lparr>Kind = ''VLAN_DUP'',
                Detail = ''site='' @ Site b @ '' vrf='' @ VRF b @ '' vlan='' @ itoa (VLAN b) @
                         '' duplicated: '' @ Name a @ '', '' @ Name b,
                Level = ''Conflict''\<rparr>]"
      by (simp add: vlanDup_def)
  qed
  have p4: "distinct (map (\<lambda>s. vlanKey s rules) segs) \<longrightarrow> filter (\<lambda>c. Kind c = ''VLAN_DUP'') cs = []"
  proof
    assume d: "distinct (map (\<lambda>s. vlanKey s rules) segs)"
    have "vlanWalk rules (segByID segs) [] segs = []" by (rule vlanWalk_fresh[OF d]) simp
    with fl show "filter (\<lambda>c. Kind c = ''VLAN_DUP'') cs = []" by simp
  qed
  have p0: "\<forall>s. vlanKey s rules =
            (if VLANScope rules = ''global'' then itoa (VLAN s)
             else if VLANScope rules = ''site'' then Site s @ ''|'' @ itoa (VLAN s)
             else Site s @ ''|'' @ VRF s @ ''|'' @ itoa (VLAN s))"
    by (rule allI) (rule vlanKey_format)
  have pk: "\<forall>s t. (specSameVlanScope rules s t \<longrightarrow> vlanKey s rules = vlanKey t rules) \<and>
           (goInt (VLAN s) \<and> goInt (VLAN t) \<and>
            (VLANScope rules = ''global'' \<or> VLANScope rules = ''site'' \<or>
             (CHR ''|'' \<notin> set (VRF s) \<and> CHR ''|'' \<notin> set (VRF t))) \<and>
            vlanKey s rules = vlanKey t rules \<longrightarrow> specSameVlanScope rules s t)"
  proof (intro allI conjI impI)
    fix s t :: Segment
    assume "specSameVlanScope rules s t"
    then show "vlanKey s rules = vlanKey t rules" by (rule vlanKey_same_scope)
  next
    fix s t :: Segment
    assume h: "goInt (VLAN s) \<and> goInt (VLAN t) \<and>
            (VLANScope rules = ''global'' \<or> VLANScope rules = ''site'' \<or>
             (CHR ''|'' \<notin> set (VRF s) \<and> CHR ''|'' \<notin> set (VRF t))) \<and>
            vlanKey s rules = vlanKey t rules"
    then have h1: "goInt (VLAN s)" and h2: "goInt (VLAN t)"
      and h3: "VLANScope rules = ''global'' \<or> VLANScope rules = ''site'' \<or>
             (CHR ''|'' \<notin> set (VRF s) \<and> CHR ''|'' \<notin> set (VRF t))"
      and h4: "vlanKey s rules = vlanKey t rules" by blast+
    show "specSameVlanScope rules s t" by (rule vlanKey_scope_eq[OF h1 h2 h3 h4])
  qed
  show ?thesis by (rule conjI[OF p0 conjI[OF pk conjI[OF p1 conjI[OF p2 conjI[OF p3 p4]]]]])
qed

text \<open>Three segments with VLAN 10: \<^verbatim>\<open>seg-a\<close> (site \<^verbatim>\<open>R1\<close>, VRF \<^verbatim>\<open>A\<close>), \<^verbatim>\<open>seg-b\<close> (site \<^verbatim>\<open>R1\<close>, VRF
  \<^verbatim>\<open>B\<close>) and \<^verbatim>\<open>seg-c\<close> (site \<^verbatim>\<open>R2\<close>, VRF \<^verbatim>\<open>A\<close>). The keys of \<^verbatim>\<open>seg-a\<close> under the three scopes; for
  \<^verbatim>\<open>seg-a\<close> and \<^verbatim>\<open>seg-b\<close> one \<^verbatim>\<open>VLAN_DUP\<close> naming both under the scope \<^verbatim>\<open>site\<close> and none under
  \<^verbatim>\<open>site_vrf\<close>; for \<^verbatim>\<open>seg-a\<close> and \<^verbatim>\<open>seg-c\<close> one under the scope \<^verbatim>\<open>global\<close> and none under \<^verbatim>\<open>site\<close>.\<close>

theorem vlan_dup_reported_witness:
  "vlanKey segDa globalScopeRules = ''10'' \<and> vlanKey segDa siteScopeRules = ''R1|10'' \<and>
   vlanKey segDa defaultProjectRules = ''R1|A|10'' \<and>
   specSameVlanScope siteScopeRules segDa segDb \<and>
   vlanKey segDa siteScopeRules = vlanKey segDb siteScopeRules \<and>
   goInt (VLAN segDa) \<and> goInt (VLAN segDc) \<and>
   vlanKey segDa globalScopeRules = vlanKey segDc globalScopeRules \<and>
   specSameVlanScope globalScopeRules segDa segDc \<and>
   filter (\<lambda>c. Kind c = ''VLAN_DUP'')
     (snd (analyzeSegments libD insertionOrders segsD poolsD [] [] [] siteScopeRules)) =
     [\<lparr>Kind = ''VLAN_DUP'', Detail = ''site=R1 vrf=B vlan=10 duplicated: seg-a, seg-b'',
       Level = ''Conflict''\<rparr>] \<and>
   (\<exists>x. fst (analyzeSegments libD insertionOrders segsD poolsD [] [] [] siteScopeRules) 1 = Some x \<and>
        stLevel x = statusConflict) \<and>
   (\<exists>x. fst (analyzeSegments libD insertionOrders segsD poolsD [] [] [] siteScopeRules) 2 = Some x \<and>
        stLevel x = statusConflict) \<and>
   filter (\<lambda>c. Kind c = ''VLAN_DUP'')
     (snd (analyzeSegments libD insertionOrders segsD poolsD [] [] [] defaultProjectRules)) = [] \<and>
   filter (\<lambda>c. Kind c = ''VLAN_DUP'')
     (snd (analyzeSegments libD insertionOrders segsG poolsD [] [] [] globalScopeRules)) =
     [\<lparr>Kind = ''VLAN_DUP'', Detail = ''site=R2 vrf=A vlan=10 duplicated: seg-a, seg-c'',
       Level = ''Conflict''\<rparr>] \<and>
   filter (\<lambda>c. Kind c = ''VLAN_DUP'')
     (snd (analyzeSegments libD insertionOrders segsG poolsD [] [] [] siteScopeRules)) = []"
proof -
  note s = vlan_dup_reported[of libD insertionOrders segsD poolsD "[]" "[]" "[]" siteScopeRules,
      OF surjective_pairing]
  note d = vlan_dup_reported[of libD insertionOrders segsD poolsD "[]" "[]" "[]" defaultProjectRules,
      OF surjective_pairing]
  note g = vlan_dup_reported[of libD insertionOrders segsG poolsD "[]" "[]" "[]" globalScopeRules,
      OF surjective_pairing]
  note t = vlan_dup_reported[of libD insertionOrders segsG poolsD "[]" "[]" "[]" siteScopeRules,
      OF surjective_pairing]
  have sc: "VLANScope globalScopeRules = ''global''" "VLANScope siteScopeRules = ''site''"
    "VLANScope defaultProjectRules = ''site_vrf''"
    by (simp_all add: globalScopeRules_def siteScopeRules_def defaultProjectRules_def
          VlanScopeGlobal_def VlanScopeSite_def VlanScopeSiteVRF_def)
  from g have "vlanKey segDa globalScopeRules =
      (if VLANScope globalScopeRules = ''global'' then itoa (VLAN segDa)
       else if VLANScope globalScopeRules = ''site'' then Site segDa @ ''|'' @ itoa (VLAN segDa)
       else Site segDa @ ''|'' @ VRF segDa @ ''|'' @ itoa (VLAN segDa))" by blast
  then have k1: "vlanKey segDa globalScopeRules = ''10''" by (simp add: sc segD_fields itoa_10)
  from s have "vlanKey segDa siteScopeRules =
      (if VLANScope siteScopeRules = ''global'' then itoa (VLAN segDa)
       else if VLANScope siteScopeRules = ''site'' then Site segDa @ ''|'' @ itoa (VLAN segDa)
       else Site segDa @ ''|'' @ VRF segDa @ ''|'' @ itoa (VLAN segDa))" by blast
  then have k2: "vlanKey segDa siteScopeRules = ''R1|10''" by (simp add: sc segD_fields itoa_10)
  from d have "vlanKey segDa defaultProjectRules =
      (if VLANScope defaultProjectRules = ''global'' then itoa (VLAN segDa)
       else if VLANScope defaultProjectRules = ''site'' then Site segDa @ ''|'' @ itoa (VLAN segDa)
       else Site segDa @ ''|'' @ VRF segDa @ ''|'' @ itoa (VLAN segDa))" by blast
  then have k3: "vlanKey segDa defaultProjectRules = ''R1|A|10''"
    by (simp add: sc segD_fields itoa_10)
  have same: "specSameVlanScope siteScopeRules segDa segDb"
    by (simp add: specSameVlanScope_def sc segD_fields)
  from s have "specSameVlanScope siteScopeRules segDa segDb \<longrightarrow>
      vlanKey segDa siteScopeRules = vlanKey segDb siteScopeRules" by blast
  with same have k4: "vlanKey segDa siteScopeRules = vlanKey segDb siteScopeRules" by simp
  have gi: "goInt (VLAN segDa)" "goInt (VLAN segDc)" by (simp_all add: goInt_def segD_fields)
  have k5: "vlanKey segDa globalScopeRules = vlanKey segDc globalScopeRules" by (simp add: keysD)
  from g have "goInt (VLAN segDa) \<and> goInt (VLAN segDc) \<and>
      (VLANScope globalScopeRules = ''global'' \<or> VLANScope globalScopeRules = ''site'' \<or>
       (CHR ''|'' \<notin> set (VRF segDa) \<and> CHR ''|'' \<notin> set (VRF segDc))) \<and>
      vlanKey segDa globalScopeRules = vlanKey segDc globalScopeRules \<longrightarrow>
      specSameVlanScope globalScopeRules segDa segDc" by blast
  with gi k5 sc(1) have sameG: "specSameVlanScope globalScopeRules segDa segDc" by blast
  from s have "segsD = [] @ segDa # [] @ segDb # [] \<and>
      vlanKey segDa siteScopeRules = vlanKey segDb siteScopeRules \<and>
      distinct (map (\<lambda>s. vlanKey s siteScopeRules) ([] @ segDa # [] @ [])) \<and>
      distinct (map ID segsD) \<longrightarrow>
      filter (\<lambda>c. Kind c = ''VLAN_DUP'')
        (snd (analyzeSegments libD insertionOrders segsD poolsD [] [] [] siteScopeRules)) =
        [\<lparr>Kind = ''VLAN_DUP'',
          Detail = ''site='' @ Site segDb @ '' vrf='' @ VRF segDb @ '' vlan='' @ itoa (VLAN segDb) @
                   '' duplicated: '' @ Name segDa @ '', '' @ Name segDb,
          Level = ''Conflict''\<rparr>]"
    by blast
  then have a: "filter (\<lambda>c. Kind c = ''VLAN_DUP'')
     (snd (analyzeSegments libD insertionOrders segsD poolsD [] [] [] siteScopeRules)) =
     [\<lparr>Kind = ''VLAN_DUP'', Detail = ''site=R1 vrf=B vlan=10 duplicated: seg-a, seg-b'',
       Level = ''Conflict''\<rparr>]"
    by (simp add: segsD_def k4 segD_fields itoa_10)
  from s have "0 < (1::nat) \<and> 1 < length segsD \<and>
      vlanKey (segsD ! 0) siteScopeRules = vlanKey (segsD ! 1) siteScopeRules \<longrightarrow>
      (\<exists>x. fst (analyzeSegments libD insertionOrders segsD poolsD [] [] [] siteScopeRules)
             (ID (segsD ! 0)) = Some x \<and> stLevel x = statusConflict) \<and>
      (\<exists>x. fst (analyzeSegments libD insertionOrders segsD poolsD [] [] [] siteScopeRules)
             (ID (segsD ! 1)) = Some x \<and> stLevel x = statusConflict)"
    by blast
  then have b: "(\<exists>x. fst (analyzeSegments libD insertionOrders segsD poolsD [] [] [] siteScopeRules) 1 = Some x \<and>
        stLevel x = statusConflict) \<and>
   (\<exists>x. fst (analyzeSegments libD insertionOrders segsD poolsD [] [] [] siteScopeRules) 2 = Some x \<and>
        stLevel x = statusConflict)"
    by (simp add: segsD_def k4 segD_fields)
  from d have "distinct (map (\<lambda>s. vlanKey s defaultProjectRules) segsD) \<longrightarrow>
      filter (\<lambda>c. Kind c = ''VLAN_DUP'')
        (snd (analyzeSegments libD insertionOrders segsD poolsD [] [] [] defaultProjectRules)) = []"
    by blast
  then have c: "filter (\<lambda>c. Kind c = ''VLAN_DUP'')
     (snd (analyzeSegments libD insertionOrders segsD poolsD [] [] [] defaultProjectRules)) = []"
    by (simp add: segsD_def keysD)
  from g have "segsG = [] @ segDa # [] @ segDc # [] \<and>
      vlanKey segDa globalScopeRules = vlanKey segDc globalScopeRules \<and>
      distinct (map (\<lambda>s. vlanKey s globalScopeRules) ([] @ segDa # [] @ [])) \<and>
      distinct (map ID segsG) \<longrightarrow>
      filter (\<lambda>c. Kind c = ''VLAN_DUP'')
        (snd (analyzeSegments libD insertionOrders segsG poolsD [] [] [] globalScopeRules)) =
        [\<lparr>Kind = ''VLAN_DUP'',
          Detail = ''site='' @ Site segDc @ '' vrf='' @ VRF segDc @ '' vlan='' @ itoa (VLAN segDc) @
                   '' duplicated: '' @ Name segDa @ '', '' @ Name segDc,
          Level = ''Conflict''\<rparr>]"
    by blast
  then have e: "filter (\<lambda>c. Kind c = ''VLAN_DUP'')
     (snd (analyzeSegments libD insertionOrders segsG poolsD [] [] [] globalScopeRules)) =
     [\<lparr>Kind = ''VLAN_DUP'', Detail = ''site=R2 vrf=A vlan=10 duplicated: seg-a, seg-c'',
       Level = ''Conflict''\<rparr>]"
    by (simp add: segsG_def keysD segD_fields itoa_10)
  from t have "distinct (map (\<lambda>s. vlanKey s siteScopeRules) segsG) \<longrightarrow>
      filter (\<lambda>c. Kind c = ''VLAN_DUP'')
        (snd (analyzeSegments libD insertionOrders segsG poolsD [] [] [] siteScopeRules)) = []"
    by blast
  then have f: "filter (\<lambda>c. Kind c = ''VLAN_DUP'')
     (snd (analyzeSegments libD insertionOrders segsG poolsD [] [] [] siteScopeRules)) = []"
    by (simp add: segsG_def keysD)
  from k1 k2 k3 same k4 gi k5 sameG a b c e f show ?thesis by simp
qed


section \<open>The order of the phases\<close>

text \<open>Within one run the conflicts come phase by phase: those of the reserved ranges
  that do not parse, those of the per-segment loop, the \<^verbatim>\<open>OVERLAP\<close> ones, the \<^verbatim>\<open>OVERLAP_V6\<close>
  ones, the \<^verbatim>\<open>VLAN_DUP\<close> ones, and the hints of \<open>analyzeEfficiency\<close> last. Only the order
  inside the phases that walk a map depends on the run.\<close>

lemma segmentLoop_appends_kinds:
  "segmentLoop L p4 p6 r4 r6 rules segs = (st0, cs0, b4, b6) \<Longrightarrow>
   \<forall>c\<in>set cs0. Kind c \<in> segmentKinds"
  using segmentLoop_kinds[of L p4 p6 r4 r6 rules segs] by simp

lemma analyzeSegments_phases:
  "\<exists>c0 n1 n2 w. snd (analyzeSegments L R segs p4 p6 r4 r6 rules) = c0 @ n1 @ n2 @ w \<and>
     (\<forall>c\<in>set c0. Kind c \<in> segmentKinds) \<and> (\<forall>c\<in>set n1. Kind c = ''OVERLAP'') \<and>
     (\<forall>c\<in>set n2. Kind c = ''OVERLAP_V6'') \<and> (\<forall>c\<in>set w. Kind c = ''VLAN_DUP'')"
proof -
  obtain st0 cs0 byID byIDV6 where
    l: "segmentLoop L p4 p6 r4 r6 rules segs = (st0, cs0, byID, byIDV6)"
    by (metis prod_cases4)
  note k0 = segmentLoop_appends_kinds[OF l]
  obtain st1 cs1 where
    o1: "overlapLoop L ''OVERLAP'' ''overlap with '' byID (segByID segs)
           (groupOrder4 R (buildGroups byID segs)) (st0, cs0) = (st1, cs1)"
    by (metis prod.exhaust)
  from overlapLoop_appends[of L "''OVERLAP''" "''overlap with ''" byID "segByID segs"
      "groupOrder4 R (buildGroups byID segs)" "(st0, cs0)"] o1
  obtain n1 where n1: "cs1 = cs0 @ n1" "\<forall>x\<in>set n1. Kind x = ''OVERLAP''" by auto
  obtain st2 cs2 where
    o2: "overlapLoop L ''OVERLAP_V6'' ''v6 overlap with '' byIDV6 (segByID segs)
           (groupOrder6 R (buildGroups byIDV6 segs)) (st1, cs1) = (st2, cs2)"
    by (metis prod.exhaust)
  from overlapLoop_appends[of L "''OVERLAP_V6''" "''v6 overlap with ''" byIDV6 "segByID segs"
      "groupOrder6 R (buildGroups byIDV6 segs)" "(st1, cs1)"] o2
  obtain n2 where n2: "cs2 = cs1 @ n2" "\<forall>x\<in>set n2. Kind x = ''OVERLAP_V6''" by auto
  obtain seen st3 cs3 where
    v: "foldl (vlanStep rules (segByID segs)) (Map.empty, st2, cs2) segs = (seen, st3, cs3)"
    by (metis prod_cases3)
  from vlan_fold[OF v] have w: "cs3 = cs2 @ vlanWalk rules (segByID segs) [] segs" by auto
  have "analyzeSegments L R segs p4 p6 r4 r6 rules = (finalStatuses segs st3, cs3)"
    by (simp add: analyzeSegments_def l o1 o2 vlanLoop_def v Let_def)
  then have "snd (analyzeSegments L R segs p4 p6 r4 r6 rules) =
      cs0 @ n1 @ n2 @ vlanWalk rules (segByID segs) [] segs"
    by (simp add: w n2(1) n1(1))
  moreover have "\<forall>c\<in>set (vlanWalk rules (segByID segs) [] segs). Kind c = ''VLAN_DUP''"
    using vlanWalk_kinds[of rules "segByID segs" "[]" segs] by blast
  ultimately show ?thesis using k0 n1(2) n2(2) by blast
qed

lemma analyzeAll_phases:
  "\<exists>p4 p6 r4 r6 res. snd (analyzeAll L R segs pools sites rules) =
      res @ snd (analyzeSegments L R segs p4 p6 r4 r6 rules) @
      analyzeEfficiency L R segs p4 p6 r4 r6 rules"
proof -
  obtain p4 p6 where p: "buildPoolIndex L pools = (p4, p6)" by (metis prod.exhaust)
  obtain r4 r6 res where r: "buildReservedIndex L sites = (r4, r6, res)" by (metis prod_cases3)
  have "snd (analyzeAll L R segs pools sites rules) =
      res @ snd (analyzeSegments L R segs p4 p6 r4 r6 rules) @
      analyzeEfficiency L R segs p4 p6 r4 r6 rules"
    by (simp add: analyzeAll_def p r split: prod.splits)
  then show ?thesis by blast
qed

end
